theory Spec2Isabelle
  imports Main
begin

section \<open>Data model of process\_scope/shared\_memory\<close>

text \<open>
  The shared-memory variant keeps one \<open>ProcessLogger\<close> inside a POSIX shared memory
  object named \<open>/process_scope_logger\<close>.  A \<^emph>\<open>mapper\<close> is one loaded copy of
  \<open>shm_logger.cpp\<close>: it owns the two file-level statics \<open>g_block\<close> and
  \<open>g_init_flag\<close>.  Everything outside the mapper (the kernel's named objects, the
  mappings it has established, what was printed and which system calls were issued)
  is part of the \<open>world\<close> that every operation takes and returns.
\<close>

type_synonym addr = nat
type_synonym mapper = nat

text \<open>\<open>struct ProcessLogger { const char* tag_; }\<close>: the field tag_, kept as its text.\<close>

record ProcessLogger =
  tag :: string

text \<open>
  \<open>struct ShmBlock { std::atomic<bool> initialized{false}; alignas(64) char storage[256]; }\<close>.
  The storage either holds raw (zero) bytes, \<open>None\<close>, or a constructed logger.
\<close>

record ShmBlock =
  initialized :: bool
  storage :: "ProcessLogger option"

definition zero_block :: ShmBlock where
  "zero_block = \<lparr>initialized = False, storage = None\<rparr>"

definition sizeof_ShmBlock :: nat where
  "sizeof_ShmBlock = 320"

text \<open>A named kernel object: its current size and its bytes.\<close>

record shm_object =
  obj_size :: nat
  obj_block :: ShmBlock

definition SHM_NAME :: string where
  "SHM_NAME = ''/process_scope_logger''"

text \<open>The process-local state of one mapper: \<open>g_block\<close> (\<open>None\<close> is \<open>nullptr\<close>)
  and whether the \<open>std::once_flag\<close> has been consumed.\<close>

record statics =
  g_block :: "addr option"
  g_init_flag :: bool

text \<open>What a run leaves behind for an observer: system calls issued and lines printed.\<close>

datatype event =
    Sys_shm_open
  | Sys_ftruncate
  | Sys_mmap
  | Sys_close
  | Sys_munmap
  | Perror string
  | Cout_mapped addr
  | Cout_initializing
  | Cout_already_initialized
  | Ctor_call
  | Cout_ctor string addr

record world =
  shm :: "string \<rightharpoonup> shm_object"
  vm :: "mapper \<Rightarrow> addr \<rightharpoonup> string"
  mods :: "mapper \<Rightarrow> statics"
  trace :: "(mapper \<times> event) list"

text \<open>The results the operating system gives to the three calls of one
  \<open>init_shm_block\<close> run: the descriptor from \<open>shm_open\<close>, the return value of
  \<open>ftruncate\<close>, and the address from \<open>mmap\<close> (\<open>None\<close> is \<open>MAP_FAILED\<close>).\<close>

record os_results =
  shm_open_ret :: int
  ftruncate_ret :: int
  mmap_ret :: "addr option"

datatype abort_reason = Shm_open_failed | Ftruncate_failed | Mmap_failed

text \<open>Every way a call can end other than by returning: \<open>std::abort()\<close>, an exception
  leaving the payload constructor, and the two undefined dereferences of \<open>g_block\<close>.\<close>

datatype failure =
    Abort abort_reason
  | Ctor_exception
  | Null_deref
  | Wild_deref

definition fresh_world :: world where
  "fresh_world = \<lparr>shm = Map.empty, vm = (\<lambda>m. Map.empty),
     mods = (\<lambda>m. \<lparr>g_block = None, g_init_flag = False\<rparr>), trace = []\<rparr>"

section \<open>Atomic actions\<close>

definition emit :: "mapper \<Rightarrow> event \<Rightarrow> world \<Rightarrow> world" where
  "emit m ev w = w\<lparr>trace := trace w @ [(m, ev)]\<rparr>"

text \<open>\<open>shm_open(SHM_NAME, O_CREAT | O_RDWR, 0666)\<close>: a successful call creates the
  object, empty and zero-filled, when the name does not exist yet.\<close>

definition do_shm_open :: "mapper \<Rightarrow> os_results \<Rightarrow> world \<Rightarrow> world" where
  "do_shm_open m e w =
     emit m Sys_shm_open
       (if 0 \<le> shm_open_ret e \<and> shm w SHM_NAME = None
        then w\<lparr>shm := (shm w)(SHM_NAME \<mapsto> \<lparr>obj_size = 0, obj_block = zero_block\<rparr>)\<rparr>
        else w)"

text \<open>\<open>ftruncate(fd, sizeof(ShmBlock))\<close>: sets the size; the bytes already there stay.\<close>

definition do_ftruncate :: "mapper \<Rightarrow> os_results \<Rightarrow> world \<Rightarrow> world" where
  "do_ftruncate m e w =
     emit m Sys_ftruncate
       (if 0 \<le> ftruncate_ret e
        then (case shm w SHM_NAME of
                None \<Rightarrow> w
              | Some ob \<Rightarrow> w\<lparr>shm := (shm w)(SHM_NAME \<mapsto> ob\<lparr>obj_size := sizeof_ShmBlock\<rparr>)\<rparr>)
        else w)"

text \<open>\<open>mmap(nullptr, sizeof(ShmBlock), PROT_READ | PROT_WRITE, MAP_SHARED, fd, 0)\<close>.\<close>

definition do_mmap :: "mapper \<Rightarrow> os_results \<Rightarrow> world \<Rightarrow> world" where
  "do_mmap m e w =
     emit m Sys_mmap
       (case mmap_ret e of
          None \<Rightarrow> w
        | Some a \<Rightarrow> w\<lparr>vm := (vm w)(m := (vm w m)(a \<mapsto> SHM_NAME))\<rparr>)"

definition do_close :: "mapper \<Rightarrow> world \<Rightarrow> world" where
  "do_close m w = emit m Sys_close w"

definition do_munmap :: "mapper \<Rightarrow> addr \<Rightarrow> world \<Rightarrow> world" where
  "do_munmap m a w = emit m Sys_munmap (w\<lparr>vm := (vm w)(m := (vm w m)(a := None))\<rparr>)"

definition set_g_block :: "mapper \<Rightarrow> addr option \<Rightarrow> world \<Rightarrow> world" where
  "set_g_block m p w = w\<lparr>mods := (mods w)(m := (mods w m)\<lparr>g_block := p\<rparr>)\<rparr>"

definition set_g_init_flag :: "mapper \<Rightarrow> world \<Rightarrow> world" where
  "set_g_init_flag m w = w\<lparr>mods := (mods w)(m := (mods w m)\<lparr>g_init_flag := True\<rparr>)\<rparr>"

text \<open>Following the pointer \<open>g_block\<close> of mapper \<open>m\<close>: the name of the object mapped
  there and the object, or the undefined dereference.\<close>

definition deref_g_block :: "mapper \<Rightarrow> world \<Rightarrow> failure + (string \<times> shm_object)" where
  "deref_g_block m w =
     (case g_block (mods w m) of
        None \<Rightarrow> Inl Null_deref
      | Some a \<Rightarrow>
          (case vm w m a of
             None \<Rightarrow> Inl Wild_deref
           | Some n \<Rightarrow>
               (case shm w n of
                  None \<Rightarrow> Inl Wild_deref
                | Some ob \<Rightarrow> Inr (n, ob))))"

text \<open>\<open>bool expected = false; g_block->initialized.compare_exchange_strong(expected, true)\<close>:
  the result of the exchange and the world after it.\<close>

definition cas_initialized :: "mapper \<Rightarrow> world \<Rightarrow> failure + (bool \<times> world)" where
  "cas_initialized m w =
     (case deref_g_block m w of
        Inl f \<Rightarrow> Inl f
      | Inr (n, ob) \<Rightarrow>
          if initialized (obj_block ob) then Inr (False, w)
          else Inr (True,
                 w\<lparr>shm := (shm w)(n \<mapsto> ob\<lparr>obj_block := (obj_block ob)\<lparr>initialized := True\<rparr>\<rparr>)\<rparr>))"

text \<open>\<open>new (g_block->storage) ProcessLogger(...)\<close>.  The constructor is the parameter
  \<open>c\<close>: \<open>None\<close> is a constructor that throws, \<open>Some p\<close> one that builds \<open>p\<close> and
  prints its \<open>ctor @\<close> line.\<close>

definition placement_new :: "ProcessLogger option \<Rightarrow> mapper \<Rightarrow> world \<Rightarrow> failure option \<times> world" where
  "placement_new c m w =
     (let w1 = emit m Ctor_call w in
      case c of
        None \<Rightarrow> (Some Ctor_exception, w1)
      | Some p \<Rightarrow>
          (case deref_g_block m w1 of
             Inl f \<Rightarrow> (Some f, w1)
           | Inr (n, ob) \<Rightarrow>
               (None,
                emit m (Cout_ctor (tag p) (the (g_block (mods w1 m))))
                  (w1\<lparr>shm := (shm w1)(n \<mapsto> ob\<lparr>obj_block := (obj_block ob)\<lparr>storage := Some p\<rparr>\<rparr>)\<rparr>))))"

section \<open>The operations of shm\_logger.cpp\<close>

text \<open>\<open>static void init_shm_block()\<close>; \<open>None\<close> is a normal return.\<close>

definition init_shm_block ::
  "ProcessLogger option \<Rightarrow> mapper \<Rightarrow> os_results \<Rightarrow> world \<Rightarrow> failure option \<times> world" where
  "init_shm_block c m e w =
     (let w1 = do_shm_open m e w in
      if shm_open_ret e < 0
      then (Some (Abort Shm_open_failed), emit m (Perror ''shm_open failed'') w1)
      else
        let w2 = do_ftruncate m e w1 in
        if ftruncate_ret e < 0
        then (Some (Abort Ftruncate_failed),
              do_close m (emit m (Perror ''ftruncate failed'') w2))
        else
          let w3 = do_close m (do_mmap m e w2) in
          case mmap_ret e of
            None \<Rightarrow> (Some (Abort Mmap_failed), emit m (Perror ''mmap failed'') w3)
          | Some a \<Rightarrow>
              let w4 = emit m (Cout_mapped a) (set_g_block m (Some a) w3) in
              (case cas_initialized m w4 of
                 Inl f \<Rightarrow> (Some f, w4)
               | Inr (True, w5) \<Rightarrow> placement_new c m (emit m Cout_initializing w5)
               | Inr (False, w5) \<Rightarrow> (None, emit m Cout_already_initialized w5)))"

text \<open>\<open>std::call_once(g_init_flag, init_shm_block)\<close> for callers that arrive one after
  the other: a consumed flag returns at once; otherwise the function runs, and the flag
  is consumed only when the function returns normally.\<close>

definition call_once_init ::
  "ProcessLogger option \<Rightarrow> mapper \<Rightarrow> os_results \<Rightarrow> world \<Rightarrow> failure option \<times> world" where
  "call_once_init c m e w =
     (if g_init_flag (mods w m) then (None, w)
      else case init_shm_block c m e w of
             (Some f, w') \<Rightarrow> (Some f, w')
           | (None, w') \<Rightarrow> (None, set_g_init_flag m w'))"

text \<open>\<open>return *reinterpret_cast<ProcessLogger*>(g_block->storage)\<close>: the reference is the
  address of the block whose storage it designates.\<close>

definition return_storage :: "mapper \<Rightarrow> world \<Rightarrow> failure + addr" where
  "return_storage m w =
     (case g_block (mods w m) of None \<Rightarrow> Inl Null_deref | Some a \<Rightarrow> Inr a)"

text \<open>\<open>ProcessLogger& get_shm_logger()\<close>, with the constructor as a parameter.\<close>

definition get_shm_logger_with ::
  "ProcessLogger option \<Rightarrow> mapper \<Rightarrow> os_results \<Rightarrow> world \<Rightarrow> (failure + addr) \<times> world" where
  "get_shm_logger_with c m e w =
     (case call_once_init c m e w of
        (Some f, w') \<Rightarrow> (Inl f, w')
      | (None, w') \<Rightarrow> (return_storage m w', w'))"

text \<open>The constructor of the repository, \<open>ProcessLogger("shared_memory")\<close>, never throws.\<close>

definition ProcessLogger_ctor :: "string \<Rightarrow> ProcessLogger option" where
  "ProcessLogger_ctor t = Some \<lparr>tag = t\<rparr>"

definition get_shm_logger :: "mapper \<Rightarrow> os_results \<Rightarrow> world \<Rightarrow> (failure + addr) \<times> world" where
  "get_shm_logger = get_shm_logger_with (ProcessLogger_ctor ''shared_memory'')"

text \<open>Which ends of a call hand control back to the caller of \<open>get_shm_logger\<close>:
  the returned reference and an exception that leaves the constructor do;
  \<open>std::abort()\<close> raises \<open>SIGABRT\<close> and does not return, so the process ends inside
  the call; an undefined dereference has no defined continuation.\<close>

fun handed_to_caller :: "failure + addr \<Rightarrow> bool" where
  "handed_to_caller (Inr a) = True"
| "handed_to_caller (Inl Ctor_exception) = True"
| "handed_to_caller (Inl (Abort r)) = False"
| "handed_to_caller (Inl Null_deref) = False"
| "handed_to_caller (Inl Wild_deref) = False"

text \<open>\<open>void cleanup_shm_logger()\<close>.\<close>

definition cleanup_shm_logger :: "mapper \<Rightarrow> world \<Rightarrow> world" where
  "cleanup_shm_logger m w =
     (case g_block (mods w m) of
        None \<Rightarrow> w
      | Some a \<Rightarrow> set_g_block m None (do_munmap m a w))"

section \<open>The machine-wide guard (os\_scope/singleton\_daemon.cpp)\<close>

text \<open>What the operating system answers to the guard: its process id, the descriptor
  from \<open>open\<close> and the \<open>errno\<close> of a failed \<open>open\<close>, whether another open file
  description holds the exclusive lock, and an error other than contention that
  \<open>flock\<close> may report.\<close>

record guard_env =
  pid :: int
  open_ret :: int
  open_errno :: int
  lock_held :: bool
  flock_fault :: "int option"

definition LOCK_FILE :: string where
  "LOCK_FILE = ''/tmp/os_scope_singleton.lock''"

definition EWOULDBLOCK :: int where
  "EWOULDBLOCK = 11"

text \<open>\<open>flock(fd, LOCK_EX | LOCK_NB)\<close>: return value and \<open>errno\<close>.\<close>

definition sys_flock :: "guard_env \<Rightarrow> int \<times> int" where
  "sys_flock e =
     (if lock_held e then (- 1, EWOULDBLOCK)
      else case flock_fault e of
             Some en \<Rightarrow> (- 1, en)
           | None \<Rightarrow> (0, 0))"

text \<open>The lines the guard prints, in the order of the source.\<close>

datatype guard_msg =
    Cout_banner
  | Cerr_open_failed int
  | Cout_attempting int
  | Cerr_already_running int
  | Cerr_flock_failed int int
  | Cout_lock_acquired int
  | Cout_lock_file string
  | Cout_key_insight
  | Cout_press_enter
  | Cout_lock_released int

text \<open>\<open>int main()\<close> of the daemon: the exit code and what it printed.  On the
  successful path the process waits for a line on standard input before it closes the
  descriptor and returns.\<close>

definition daemon_main :: "guard_env \<Rightarrow> int \<times> guard_msg list" where
  "daemon_main e =
     (if open_ret e < 0 then (1, [Cout_banner, Cerr_open_failed (open_errno e)])
      else
        let (r, en) = sys_flock e in
        if r < 0
        then (1, [Cout_banner, Cout_attempting (pid e),
                  if en = EWOULDBLOCK then Cerr_already_running (pid e)
                  else Cerr_flock_failed (pid e) en])
        else (0, [Cout_banner, Cout_attempting (pid e), Cout_lock_acquired (pid e),
                  Cout_lock_file LOCK_FILE, Cout_key_insight, Cout_press_enter,
                  Cout_lock_released (pid e)]))"

section \<open>Observations and runs\<close>

text \<open>What an observer reads from the named object: the flag, the payload, and how often
  a payload constructor was entered.\<close>

definition flagged :: "world \<Rightarrow> bool" where
  "flagged w = (case shm w SHM_NAME of None \<Rightarrow> False | Some ob \<Rightarrow> initialized (obj_block ob))"

definition payload :: "world \<Rightarrow> ProcessLogger option" where
  "payload w = (case shm w SHM_NAME of None \<Rightarrow> None | Some ob \<Rightarrow> storage (obj_block ob))"

definition ctor_calls :: "world \<Rightarrow> nat" where
  "ctor_calls w = length (filter (\<lambda>(m, ev). ev = Ctor_call) (trace w))"

text \<open>All three system calls of one \<open>init_shm_block\<close> run succeed.\<close>

definition syscalls_ok :: "os_results \<Rightarrow> bool" where
  "syscalls_ok e = (0 \<le> shm_open_ret e \<and> 0 \<le> ftruncate_ret e \<and> mmap_ret e \<noteq> None)"

text \<open>The worlds that calls arriving one after the other can reach from
  \<open>fresh_world\<close> (lemmas \<open>wf_fresh\<close>, \<open>wf_get\<close>, \<open>wf_cleanup\<close>): a cached
  \<open>g_block\<close> is mapped, every mapping is one of the object \<open>SHM_NAME\<close>, which
  exists, a consumed once-flag means a true shared flag, and the constructor has been
  entered once if the shared flag is true and never otherwise.\<close>

definition wf_world :: "world \<Rightarrow> bool" where
  "wf_world w \<longleftrightarrow>
     (\<forall>m a. g_block (mods w m) = Some a \<longrightarrow> vm w m a = Some SHM_NAME) \<and>
     (\<forall>m a n. vm w m a = Some n \<longrightarrow> n = SHM_NAME \<and> shm w SHM_NAME \<noteq> None) \<and>
     (\<forall>m. g_init_flag (mods w m) \<longrightarrow> flagged w) \<and>
     ctor_calls w = (if flagged w then 1 else 0) \<and>
     (\<not> flagged w \<longrightarrow> payload w = None)"

text \<open>Runs of calls that arrive one after the other: of both operations, and of
  \<open>get_shm_logger\<close> alone with the result of each call.\<close>

datatype call = Get_shm_logger "ProcessLogger option" mapper os_results | Cleanup_shm_logger mapper

fun run_calls :: "call list \<Rightarrow> world \<Rightarrow> world" where
  "run_calls [] w = w"
| "run_calls (Get_shm_logger c m e # cs) w = run_calls cs (snd (get_shm_logger_with c m e w))"
| "run_calls (Cleanup_shm_logger m # cs) w = run_calls cs (cleanup_shm_logger m w)"

type_synonym get_call = "ProcessLogger option \<times> mapper \<times> os_results"

fun run_gets :: "get_call list \<Rightarrow> world \<Rightarrow> world" where
  "run_gets [] w = w"
| "run_gets ((c, m, e) # gs) w = run_gets gs (snd (get_shm_logger_with c m e w))"

fun get_results :: "get_call list \<Rightarrow> world \<Rightarrow> (mapper \<times> (failure + addr)) list" where
  "get_results [] w = []"
| "get_results ((c, m, e) # gs) w =
     (m, fst (get_shm_logger_with c m e w)) # get_results gs (snd (get_shm_logger_with c m e w))"

text \<open>No mapper that has consumed its once-flag has run \<open>cleanup_shm_logger\<close>.\<close>

definition pointers_live :: "world \<Rightarrow> bool" where
  "pointers_live w \<longleftrightarrow> (\<forall>m. g_init_flag (mods w m) \<longrightarrow> g_block (mods w m) \<noteq> None)"

text \<open>Concrete scenarios used to run the theorems.\<close>

definition env_ok :: "addr \<Rightarrow> os_results" where
  "env_ok a = \<lparr>shm_open_ret = 3, ftruncate_ret = 0, mmap_ret = Some a\<rparr>"

definition first_world :: world where
  "first_world = snd (get_shm_logger_with (ProcessLogger_ctor ''first'') 0 (env_ok 4096) fresh_world)"

definition demo_run :: "call list" where
  "demo_run = [Get_shm_logger (ProcessLogger_ctor ''shared_memory'') 0 (env_ok 4096),
               Cleanup_shm_logger 0,
               Get_shm_logger (ProcessLogger_ctor ''shared_memory'') 1 (env_ok 4096),
               Cleanup_shm_logger 1]"

section \<open>Interleaved callers\<close>

text \<open>
  Callers that run at the same time are threads, each with the mapper it belongs to, the
  constructor it would run and a program counter into \<open>get_shm_logger\<close>.  A step
  executes one atomic action of one thread; a schedule is the list of the threads chosen,
  each with the answers of the operating system for the step.  \<open>std::call_once\<close> lets
  one thread of a mapper into \<open>init_shm_block\<close>; the others of that mapper stay at the
  call until the flag is consumed or the active run has left by an exception.
  \<open>std::abort()\<close> ends the whole process; a schedule is free never to run the threads
  of an aborted process again, so every execution of the program is a schedule here.
\<close>

text \<open>Program counters: before \<open>std::call_once\<close> (line 61), the statements of
  \<open>init_shm_block\<close> (lines 21, 28, 35, 44, 51, 54 and its return), the
  \<open>return\<close> of \<open>get_shm_logger\<close> (line 62), and the end of the call with its
  outcome.  \<open>At_assign a\<close> holds the local \<open>addr\<close>.\<close>

datatype pc =
    At_call_once
  | At_shm_open
  | At_ftruncate
  | At_mmap
  | At_assign addr
  | At_cas
  | At_new
  | At_init_return
  | At_return
  | Done "failure + addr"

record thread =
  th_mapper :: mapper
  th_ctor :: "ProcessLogger option"
  th_pc :: pc

record conf =
  the_world :: world
  the_threads :: "thread list"

text \<open>The program counters inside the active execution of \<open>std::call_once\<close>.\<close>

fun in_init :: "pc \<Rightarrow> bool" where
  "in_init At_call_once = False"
| "in_init At_return = False"
| "in_init (Done r) = False"
| "in_init _ = True"

definition initialising :: "mapper \<Rightarrow> thread \<Rightarrow> bool" where
  "initialising m t \<longleftrightarrow> th_mapper t = m \<and> in_init (th_pc t)"

definition active :: "mapper \<Rightarrow> thread list \<Rightarrow> bool" where
  "active m ths = list_ex (initialising m) ths"

definition at_new :: "thread \<Rightarrow> bool" where
  "at_new t \<longleftrightarrow> th_pc t = At_new"

definition returned :: "thread \<Rightarrow> bool" where
  "returned t \<longleftrightarrow> (case th_pc t of Done (Inr a) \<Rightarrow> True | _ \<Rightarrow> False)"

text \<open>Every mapping of every mapper is one of the object \<open>SHM_NAME\<close>.\<close>

definition vm_named :: "world \<Rightarrow> bool" where
  "vm_named w \<longleftrightarrow> (\<forall>m a n. vm w m a = Some n \<longrightarrow> n = SHM_NAME)"

text \<open>The invariant of interleaved runs.  The second conjunct is the one the claims
  are about: the shared flag is true exactly when one thread has won the
  compare-exchange, and that thread stands before the placement new or has entered the
  constructor.\<close>

definition conf_inv :: "conf \<Rightarrow> bool" where
  "conf_inv cf \<longleftrightarrow>
     vm_named (the_world cf) \<and>
     ctor_calls (the_world cf) + length (filter at_new (the_threads cf)) =
       (if flagged (the_world cf) then 1 else 0) \<and>
     (\<forall>m. length (filter (initialising m) (the_threads cf)) \<le> 1) \<and>
     (\<forall>m. g_init_flag (mods (the_world cf) m) \<longrightarrow>
          flagged (the_world cf) \<and> filter (initialising m) (the_threads cf) = []) \<and>
     (\<forall>t \<in> set (the_threads cf).
          (th_pc t = At_new \<or> th_pc t = At_init_return \<longrightarrow> flagged (the_world cf)) \<and>
          (th_pc t = At_return \<or> returned t \<longrightarrow> g_init_flag (mods (the_world cf) (th_mapper t)))) \<and>
     (\<not> flagged (the_world cf) \<longrightarrow> payload (the_world cf) = None)"

text \<open>One atomic action of a thread of mapper \<open>m\<close> with constructor \<open>c\<close> at
  program counter \<open>p\<close>: the new program counter and the new world.  The actions are
  those of \<open>init_shm_block\<close>, \<open>call_once_init\<close> and \<open>get_shm_logger_with\<close>
  (lemma \<open>uninterrupted_call\<close>: a thread that runs alone does what the function
  does).\<close>

fun step_thread :: "os_results \<Rightarrow> thread list \<Rightarrow> mapper \<Rightarrow> ProcessLogger option \<Rightarrow> pc \<Rightarrow> world \<Rightarrow> pc \<times> world" where
  "step_thread e ths m c At_call_once w =
     (if g_init_flag (mods w m) then (At_return, w)
      else if active m ths then (At_call_once, w)
      else (At_shm_open, w))"
| "step_thread e ths m c At_shm_open w =
     (let w1 = do_shm_open m e w in
      if shm_open_ret e < 0
      then (Done (Inl (Abort Shm_open_failed)), emit m (Perror ''shm_open failed'') w1)
      else (At_ftruncate, w1))"
| "step_thread e ths m c At_ftruncate w =
     (let w2 = do_ftruncate m e w in
      if ftruncate_ret e < 0
      then (Done (Inl (Abort Ftruncate_failed)),
            do_close m (emit m (Perror ''ftruncate failed'') w2))
      else (At_mmap, w2))"
| "step_thread e ths m c At_mmap w =
     (let w3 = do_close m (do_mmap m e w) in
      case mmap_ret e of
        None \<Rightarrow> (Done (Inl (Abort Mmap_failed)), emit m (Perror ''mmap failed'') w3)
      | Some a \<Rightarrow> (At_assign a, w3))"
| "step_thread e ths m c (At_assign a) w =
     (At_cas, emit m (Cout_mapped a) (set_g_block m (Some a) w))"
| "step_thread e ths m c At_cas w =
     (case cas_initialized m w of
        Inl f \<Rightarrow> (Done (Inl f), w)
      | Inr (True, w5) \<Rightarrow> (At_new, emit m Cout_initializing w5)
      | Inr (False, w5) \<Rightarrow> (At_init_return, emit m Cout_already_initialized w5))"
| "step_thread e ths m c At_new w =
     (case placement_new c m w of
        (Some f, w') \<Rightarrow> (Done (Inl f), w')
      | (None, w') \<Rightarrow> (At_init_return, w'))"
| "step_thread e ths m c At_init_return w = (At_return, set_g_init_flag m w)"
| "step_thread e ths m c At_return w = (Done (return_storage m w), w)"
| "step_thread e ths m c (Done r) w = (Done r, w)"

definition step :: "nat \<times> os_results \<Rightarrow> conf \<Rightarrow> conf" where
  "step ie cf =
     (case ie of (i, e) \<Rightarrow>
        if i < length (the_threads cf)
        then let t = the_threads cf ! i;
                 (pc', w') = step_thread e (the_threads cf) (th_mapper t) (th_ctor t) (th_pc t)
                               (the_world cf)
             in \<lparr>the_world = w', the_threads = (the_threads cf)[i := t\<lparr>th_pc := pc'\<rparr>]\<rparr>
        else cf)"

definition run_sched :: "(nat \<times> os_results) list \<Rightarrow> conf \<Rightarrow> conf" where
  "run_sched sched cf = fold step sched cf"

definition caller :: "mapper \<Rightarrow> ProcessLogger option \<Rightarrow> thread" where
  "caller m c = \<lparr>th_mapper = m, th_ctor = c, th_pc = At_call_once\<rparr>"

definition demo_sched :: "(nat \<times> os_results) list" where
  "demo_sched =
     [(1, env_ok 4096), (1, env_ok 4096), (0, env_ok 8192), (2, env_ok 8192),
      (1, env_ok 4096), (1, env_ok 4096), (0, env_ok 8192), (1, env_ok 4096),
      (1, env_ok 4096), (2, env_ok 8192), (1, env_ok 4096), (1, env_ok 4096),
      (0, env_ok 8192), (1, env_ok 4096), (2, env_ok 8192), (0, env_ok 8192),
      (2, env_ok 8192)]"

definition race_sched :: "(nat \<times> os_results) list" where
  "race_sched =
     [(0, env_ok 4096), (0, env_ok 4096), (0, env_ok 4096), (0, env_ok 4096),
      (0, env_ok 4096), (0, env_ok 4096),
      (1, env_ok 8192), (1, env_ok 8192), (1, env_ok 8192), (1, env_ok 8192),
      (1, env_ok 8192), (1, env_ok 8192), (1, env_ok 8192), (1, env_ok 8192),
      (1, env_ok 8192)]"

definition race_conf :: conf where
  "race_conf = run_sched race_sched
     \<lparr>the_world = fresh_world,
      the_threads = [caller 0 (ProcessLogger_ctor ''shared_memory''),
                     caller 1 (ProcessLogger_ctor ''shared_memory'')]\<rparr>"


text \<open>The schedule that lets the callers run one after the other, and the threads it
  ends with (lemma \<open>sequential_schedule\<close>).\<close>

fun seq_sched :: "nat \<Rightarrow> get_call list \<Rightarrow> (nat \<times> os_results) list" where
  "seq_sched k [] = []"
| "seq_sched k ((c, m, e) # gs) = replicate 9 (k, e) @ seq_sched (Suc k) gs"

fun finished_threads :: "get_call list \<Rightarrow> world \<Rightarrow> thread list" where
  "finished_threads [] w = []"
| "finished_threads ((c, m, e) # gs) w =
     \<lparr>th_mapper = m, th_ctor = c, th_pc = Done (fst (get_shm_logger_with c m e w))\<rparr>
       # finished_threads gs (snd (get_shm_logger_with c m e w))"

definition callers :: "get_call list \<Rightarrow> thread list" where
  "callers gs = map (\<lambda>(c, m, e). caller m c) gs"

definition finished :: "thread \<Rightarrow> bool" where
  "finished t \<longleftrightarrow> (case th_pc t of Done r \<Rightarrow> True | _ \<Rightarrow> False)"

text \<open>What a thread relies on at its program counter: the object exists once
  \<open>shm_open\<close> has succeeded, the local \<open>addr\<close> is mapped, \<open>g_block\<close> is mapped
  once it is assigned.\<close>

definition pc_ok :: "world \<Rightarrow> mapper \<Rightarrow> pc \<Rightarrow> bool" where
  "pc_ok w m p \<longleftrightarrow>
     (p = At_ftruncate \<or> p = At_mmap \<longrightarrow> shm w SHM_NAME \<noteq> None) \<and>
     (\<forall>a. p = At_assign a \<longrightarrow> vm w m a = Some SHM_NAME) \<and>
     (p = At_cas \<or> p = At_new \<or> p = At_init_return \<longrightarrow>
        (\<exists>a. g_block (mods w m) = Some a \<and> vm w m a = Some SHM_NAME))"

text \<open>The invariant of the mappings, under every schedule: a mapped address means the
  object exists, a consumed once-flag means a cached and mapped \<open>g_block\<close>, and a
  reference that a thread has returned is the cached \<open>g_block\<close> of its mapper.\<close>

definition conf_live :: "conf \<Rightarrow> bool" where
  "conf_live cf \<longleftrightarrow>
     (\<forall>m a. vm (the_world cf) m a \<noteq> None \<longrightarrow> shm (the_world cf) SHM_NAME \<noteq> None) \<and>
     (\<forall>m. g_init_flag (mods (the_world cf) m) \<longrightarrow>
          (\<exists>a. g_block (mods (the_world cf) m) = Some a
               \<and> vm (the_world cf) m a = Some SHM_NAME)) \<and>
     (\<forall>t \<in> set (the_threads cf).
        pc_ok (the_world cf) (th_mapper t) (th_pc t) \<and>
        (\<forall>a. th_pc t = Done (Inr a) \<longrightarrow> g_block (mods (the_world cf) (th_mapper t)) = Some a))"

text \<open>No constructor throws and no thread has ended in a failure.\<close>

definition conf_nofail :: "conf \<Rightarrow> bool" where
  "conf_nofail cf \<longleftrightarrow>
     (\<forall>t \<in> set (the_threads cf). th_ctor t \<noteq> None \<and> (\<forall>f. th_pc t \<noteq> Done (Inl f)))"

text \<open>A true flag goes with a constructed payload when no thread stands at the
  placement new.\<close>

definition conf_built :: "conf \<Rightarrow> bool" where
  "conf_built cf \<longleftrightarrow>
     (flagged (the_world cf) \<and> filter at_new (the_threads cf) = [] \<longrightarrow>
        payload (the_world cf) \<noteq> None)"

definition sched_ok :: "(nat \<times> os_results) list \<Rightarrow> bool" where
  "sched_ok sched = list_all (\<lambda>(i, e). syscalls_ok e) sched"

text \<open>An upper bound on the steps a thread has left.\<close>

fun remaining :: "pc \<Rightarrow> nat" where
  "remaining At_call_once = 9"
| "remaining At_shm_open = 8"
| "remaining At_ftruncate = 7"
| "remaining At_mmap = 6"
| "remaining (At_assign a) = 5"
| "remaining At_cas = 4"
| "remaining At_new = 3"
| "remaining At_init_return = 2"
| "remaining At_return = 1"
| "remaining (Done r) = 0"

definition work_left :: "conf \<Rightarrow> nat" where
  "work_left cf = sum_list (map (\<lambda>t. remaining (th_pc t)) (the_threads cf))"

section \<open>The cases of one call\<close>

lemmas action_defs = emit_def do_shm_open_def do_ftruncate_def do_mmap_def do_close_def
  do_munmap_def set_g_block_def set_g_init_flag_def deref_g_block_def cas_initialized_def
  placement_new_def

lemmas op_defs = init_shm_block_def call_once_init_def return_storage_def get_shm_logger_with_def

lemmas obs_defs = flagged_def payload_def ctor_calls_def

lemma get_cases [case_names cached open_fails ftruncate_fails mmap_fails already throws constructs]:
  obtains "g_init_flag (mods w m)"
  | "\<not> g_init_flag (mods w m)" "shm_open_ret e < 0"
  | "\<not> g_init_flag (mods w m)" "0 \<le> shm_open_ret e" "ftruncate_ret e < 0"
  | "\<not> g_init_flag (mods w m)" "0 \<le> shm_open_ret e" "0 \<le> ftruncate_ret e" "mmap_ret e = None"
  | a where "\<not> g_init_flag (mods w m)" "0 \<le> shm_open_ret e" "0 \<le> ftruncate_ret e"
      "mmap_ret e = Some a" "flagged w"
  | a where "\<not> g_init_flag (mods w m)" "0 \<le> shm_open_ret e" "0 \<le> ftruncate_ret e"
      "mmap_ret e = Some a" "\<not> flagged w" "c = None"
  | a p where "\<not> g_init_flag (mods w m)" "0 \<le> shm_open_ret e" "0 \<le> ftruncate_ret e"
      "mmap_ret e = Some a" "\<not> flagged w" "c = Some p"
  by (cases "mmap_ret e"; cases c; cases "flagged w"; force)

lemma get_cached:
  "g_init_flag (mods w m) \<Longrightarrow> get_shm_logger_with c m e w = (return_storage m w, w)"
  by (simp add: op_defs)

lemma get_open_fails:
  assumes "\<not> g_init_flag (mods w m)" "shm_open_ret e < 0"
  shows "get_shm_logger_with c m e w =
           (Inl (Abort Shm_open_failed),
            w\<lparr>trace := trace w @ [(m, Sys_shm_open), (m, Perror ''shm_open failed'')]\<rparr>)"
  using assms by (simp add: op_defs action_defs)

lemma get_ftruncate_fails:
  assumes "\<not> g_init_flag (mods w m)" "0 \<le> shm_open_ret e" "ftruncate_ret e < 0"
  shows "fst (get_shm_logger_with c m e w) = Inl (Abort Ftruncate_failed)"
    and "vm (snd (get_shm_logger_with c m e w)) = vm w"
    and "mods (snd (get_shm_logger_with c m e w)) = mods w"
    and "trace (snd (get_shm_logger_with c m e w)) =
           trace w @ [(m, Sys_shm_open), (m, Sys_ftruncate), (m, Perror ''ftruncate failed''),
                      (m, Sys_close)]"
    and "flagged (snd (get_shm_logger_with c m e w)) = flagged w"
    and "payload (snd (get_shm_logger_with c m e w)) = payload w"
    and "shm (snd (get_shm_logger_with c m e w)) SHM_NAME \<noteq> None"
  using assms by (simp_all add: op_defs action_defs obs_defs zero_block_def split: option.splits)

lemma get_mmap_fails:
  assumes "\<not> g_init_flag (mods w m)" "0 \<le> shm_open_ret e" "0 \<le> ftruncate_ret e"
    "mmap_ret e = None"
  shows "fst (get_shm_logger_with c m e w) = Inl (Abort Mmap_failed)"
    and "vm (snd (get_shm_logger_with c m e w)) = vm w"
    and "mods (snd (get_shm_logger_with c m e w)) = mods w"
    and "trace (snd (get_shm_logger_with c m e w)) =
           trace w @ [(m, Sys_shm_open), (m, Sys_ftruncate), (m, Sys_mmap), (m, Sys_close),
                      (m, Perror ''mmap failed'')]"
    and "flagged (snd (get_shm_logger_with c m e w)) = flagged w"
    and "payload (snd (get_shm_logger_with c m e w)) = payload w"
    and "shm (snd (get_shm_logger_with c m e w)) SHM_NAME \<noteq> None"
  using assms by (auto simp: op_defs action_defs obs_defs zero_block_def Let_def split: option.splits)

lemma get_already:
  assumes "\<not> g_init_flag (mods w m)" "0 \<le> shm_open_ret e" "0 \<le> ftruncate_ret e"
    "mmap_ret e = Some a" "flagged w"
  shows "fst (get_shm_logger_with c m e w) = Inr a"
    and "vm (snd (get_shm_logger_with c m e w)) = (vm w)(m := (vm w m)(a \<mapsto> SHM_NAME))"
    and "mods (snd (get_shm_logger_with c m e w)) =
           (mods w)(m := (mods w m)\<lparr>g_block := Some a, g_init_flag := True\<rparr>)"
    and "trace (snd (get_shm_logger_with c m e w)) =
           trace w @ [(m, Sys_shm_open), (m, Sys_ftruncate), (m, Sys_mmap), (m, Sys_close),
                      (m, Cout_mapped a), (m, Cout_already_initialized)]"
    and "flagged (snd (get_shm_logger_with c m e w))"
    and "payload (snd (get_shm_logger_with c m e w)) = payload w"
    and "shm (snd (get_shm_logger_with c m e w)) SHM_NAME \<noteq> None"
  using assms by (auto simp: op_defs action_defs obs_defs zero_block_def Let_def split: option.splits)

lemma get_throws:
  assumes "\<not> g_init_flag (mods w m)" "0 \<le> shm_open_ret e" "0 \<le> ftruncate_ret e"
    "mmap_ret e = Some a" "\<not> flagged w"
  shows "fst (get_shm_logger_with None m e w) = Inl Ctor_exception"
    and "vm (snd (get_shm_logger_with None m e w)) = (vm w)(m := (vm w m)(a \<mapsto> SHM_NAME))"
    and "mods (snd (get_shm_logger_with None m e w)) =
           (mods w)(m := (mods w m)\<lparr>g_block := Some a\<rparr>)"
    and "trace (snd (get_shm_logger_with None m e w)) =
           trace w @ [(m, Sys_shm_open), (m, Sys_ftruncate), (m, Sys_mmap), (m, Sys_close),
                      (m, Cout_mapped a), (m, Cout_initializing), (m, Ctor_call)]"
    and "flagged (snd (get_shm_logger_with None m e w))"
    and "payload (snd (get_shm_logger_with None m e w)) = payload w"
    and "shm (snd (get_shm_logger_with None m e w)) SHM_NAME \<noteq> None"
  using assms by (auto simp: op_defs action_defs obs_defs zero_block_def Let_def split: option.splits)

lemma get_constructs:
  assumes "\<not> g_init_flag (mods w m)" "0 \<le> shm_open_ret e" "0 \<le> ftruncate_ret e"
    "mmap_ret e = Some a" "\<not> flagged w"
  shows "fst (get_shm_logger_with (Some p) m e w) = Inr a"
    and "vm (snd (get_shm_logger_with (Some p) m e w)) = (vm w)(m := (vm w m)(a \<mapsto> SHM_NAME))"
    and "mods (snd (get_shm_logger_with (Some p) m e w)) =
           (mods w)(m := (mods w m)\<lparr>g_block := Some a, g_init_flag := True\<rparr>)"
    and "trace (snd (get_shm_logger_with (Some p) m e w)) =
           trace w @ [(m, Sys_shm_open), (m, Sys_ftruncate), (m, Sys_mmap), (m, Sys_close),
                      (m, Cout_mapped a), (m, Cout_initializing), (m, Ctor_call),
                      (m, Cout_ctor (tag p) a)]"
    and "flagged (snd (get_shm_logger_with (Some p) m e w))"
    and "payload (snd (get_shm_logger_with (Some p) m e w)) = Some p"
    and "shm (snd (get_shm_logger_with (Some p) m e w)) SHM_NAME \<noteq> None"
  using assms by (auto simp: op_defs action_defs obs_defs zero_block_def Let_def split: option.splits)


lemma wf_fresh: "wf_world fresh_world"
  by (simp add: wf_world_def fresh_world_def obs_defs)

lemma wf_cleanup: "wf_world w \<Longrightarrow> wf_world (cleanup_shm_logger m w)"
  unfolding wf_world_def
  by (auto simp: cleanup_shm_logger_def action_defs obs_defs split: option.splits)

lemma ctor_calls_append:
  "trace w' = trace w @ evs \<Longrightarrow>
     ctor_calls w' = ctor_calls w + length (filter (\<lambda>(m, ev). ev = Ctor_call) evs)"
  by (simp add: ctor_calls_def)

lemma wf_get: 
  assumes "wf_world w"
  shows "wf_world (snd (get_shm_logger_with c m e w))"
proof (cases rule: get_cases [where w=w and m=m and e=e and c=c])
  case cached
  then show ?thesis using assms by (simp add: get_cached)
next
  case open_fails
  then show ?thesis using assms
    by (simp add: get_open_fails wf_world_def obs_defs)
next
  case ftruncate_fails
  note r = get_ftruncate_fails [OF ftruncate_fails, of c]
  show ?thesis using assms unfolding wf_world_def
    by (simp add: r ctor_calls_append [OF r(4)])
next
  case mmap_fails
  note r = get_mmap_fails [OF mmap_fails, of c]
  show ?thesis using assms unfolding wf_world_def
    by (simp add: r ctor_calls_append [OF r(4)])
next
  case (already a)
  note r = get_already [OF already, of c]
  show ?thesis using assms already(5) unfolding wf_world_def
    by (auto simp: r ctor_calls_append [OF r(4)])
next
  case (throws a)
  note r = get_throws [OF throws(1-5)]
  show ?thesis using assms throws(5) unfolding wf_world_def throws(6)
    by (auto simp: r ctor_calls_append [OF r(4)])
next
  case (constructs a p)
  note r = get_constructs [OF constructs(1-5), of p]
  show ?thesis using assms constructs(5) unfolding wf_world_def constructs(6)
    by (auto simp: r ctor_calls_append [OF r(4)])
qed

lemma wf_run_calls: "wf_world w \<Longrightarrow> wf_world (run_calls cs w)"
  by (induction cs w rule: run_calls.induct) (simp_all add: wf_get wf_cleanup)

lemma get_returns_flag:
  assumes "get_shm_logger_with c m e w = (Inr a, w')"
  shows "g_init_flag (mods w' m) \<and> g_block (mods w' m) = Some a"
proof (cases rule: get_cases [where w=w and m=m and e=e and c=c])
  case cached
  then show ?thesis using assms by (auto simp: get_cached return_storage_def split: option.splits)
next
  case open_fails
  then show ?thesis using assms by (simp add: get_open_fails)
next
  case ftruncate_fails
  from get_ftruncate_fails(1) [OF this, of c] show ?thesis using assms by simp
next
  case mmap_fails
  from get_mmap_fails(1) [OF this, of c] show ?thesis using assms by simp
next
  case (already b)
  note r = get_already [OF already, of c]
  show ?thesis using assms r(1,3) by simp
next
  case (throws b)
  from get_throws(1) [OF throws(1-5)] show ?thesis using assms throws(6) by simp
next
  case (constructs b p)
  note r = get_constructs [OF constructs(1-5), of p]
  show ?thesis using assms r(1,3) constructs(6) by simp
qed

lemma get_other_mapper:
  "m' \<noteq> m \<Longrightarrow> mods (snd (get_shm_logger_with c m e w)) m' = mods w m'"
  by (cases rule: get_cases [where w=w and m=m and e=e and c=c])
     (simp_all add: get_cached get_open_fails get_ftruncate_fails get_mmap_fails get_already
        get_throws get_constructs)

lemma get_keeps_initialised:
  "g_init_flag (mods w m') \<Longrightarrow> mods (snd (get_shm_logger_with c m e w)) m' = mods w m'"
  by (cases "m' = m") (simp_all add: get_cached get_other_mapper)

lemma flagged_get:
  assumes "flagged w"
  shows "ctor_calls (snd (get_shm_logger_with c m e w)) = ctor_calls w"
    and "payload (snd (get_shm_logger_with c m e w)) = payload w"
    and "flagged (snd (get_shm_logger_with c m e w))"
proof -
  have "ctor_calls (snd (get_shm_logger_with c m e w)) = ctor_calls w
      \<and> payload (snd (get_shm_logger_with c m e w)) = payload w
      \<and> flagged (snd (get_shm_logger_with c m e w))"
  proof (cases rule: get_cases [where w=w and m=m and e=e and c=c])
    case cached
    then show ?thesis using assms by (simp add: get_cached)
  next
    case open_fails
    then show ?thesis using assms by (simp add: get_open_fails obs_defs)
  next
    case ftruncate_fails
    note r = get_ftruncate_fails [OF ftruncate_fails, of c]
    show ?thesis using assms by (simp add: r ctor_calls_append [OF r(4)])
  next
    case mmap_fails
    note r = get_mmap_fails [OF mmap_fails, of c]
    show ?thesis using assms by (simp add: r ctor_calls_append [OF r(4)])
  next
    case (already a)
    note r = get_already [OF already, of c]
    show ?thesis using assms by (simp add: r ctor_calls_append [OF r(4)])
  next
    case (throws a)
    then show ?thesis using assms by simp
  next
    case (constructs a p)
    then show ?thesis using assms by simp
  qed
  then show "ctor_calls (snd (get_shm_logger_with c m e w)) = ctor_calls w"
    and "payload (snd (get_shm_logger_with c m e w)) = payload w"
    and "flagged (snd (get_shm_logger_with c m e w))" by simp_all
qed

lemma flagged_get_returns:
  assumes "flagged w" "\<not> g_init_flag (mods w m)" "syscalls_ok e"
  shows "\<exists>a. fst (get_shm_logger_with c m e w) = Inr a"
    and "last (trace (snd (get_shm_logger_with c m e w))) = (m, Cout_already_initialized)"
proof -
  from assms(3) obtain a where a: "0 \<le> shm_open_ret e" "0 \<le> ftruncate_ret e" "mmap_ret e = Some a"
    by (auto simp: syscalls_ok_def)
  note r = get_already [OF assms(2) a assms(1), of c]
  show "\<exists>a. fst (get_shm_logger_with c m e w) = Inr a" using r(1) by blast
  show "last (trace (snd (get_shm_logger_with c m e w))) = (m, Cout_already_initialized)"
    by (simp add: r(4))
qed

lemma wf_returned_resolves:
  assumes "wf_world w" "get_shm_logger_with c m e w = (Inr a, w')"
  shows "vm w' m a = Some SHM_NAME \<and> shm w' SHM_NAME \<noteq> None \<and> flagged w'"
proof -
  have wf: "wf_world w'" using wf_get [OF assms(1), of c m e] assms(2) by simp
  from get_returns_flag [OF assms(2)] wf show ?thesis
    unfolding wf_world_def by blast
qed

lemma wf_run_gets: "wf_world w \<Longrightarrow> wf_world (run_gets gs w)"
  by (induction gs w rule: run_gets.induct) (simp_all add: wf_get)

lemma run_gets_keeps_initialised:
  "g_init_flag (mods w m) \<Longrightarrow> mods (run_gets gs w) m = mods w m"
  by (induction gs w rule: run_gets.induct) (simp_all add: get_keeps_initialised)

lemma get_results_returned:
  "(m, Inr a) \<in> set (get_results gs w) \<Longrightarrow>
     g_init_flag (mods (run_gets gs w) m) \<and> g_block (mods (run_gets gs w) m) = Some a"
proof (induction gs w rule: get_results.induct)
  case (1 w)
  then show ?case by simp
next
  case (2 c m' e gs w)
  let ?w1 = "snd (get_shm_logger_with c m' e w)"
  show ?case
  proof (cases "(m, Inr a) \<in> set (get_results gs ?w1)")
    case True
    from "2.IH" [OF this] show ?thesis by simp
  next
    case False
    with "2.prems" have "m' = m" "fst (get_shm_logger_with c m' e w) = Inr a" by simp_all
    then have "get_shm_logger_with c m e w = (Inr a, ?w1)" by (simp add: prod_eq_iff)
    from get_returns_flag [OF this] \<open>m' = m\<close>
    have *: "g_init_flag (mods ?w1 m) \<and> g_block (mods ?w1 m) = Some a" by simp
    then have "mods (run_gets gs ?w1) m = mods ?w1 m"
      using run_gets_keeps_initialised by blast
    with * show ?thesis by simp
  qed
qed

lemma pointers_live_get: "pointers_live w \<Longrightarrow> pointers_live (snd (get_shm_logger_with c m e w))"
  unfolding pointers_live_def
  by (cases rule: get_cases [where w=w and m=m and e=e and c=c])
     (simp_all add: get_cached get_open_fails get_ftruncate_fails get_mmap_fails get_already
        get_throws get_constructs)

lemma pointers_live_run_gets: "pointers_live w \<Longrightarrow> pointers_live (run_gets gs w)"
  by (induction gs w rule: run_gets.induct) (simp_all add: pointers_live_get)

lemma flagged_run_gets:
  "flagged w \<Longrightarrow> ctor_calls (run_gets gs w) = ctor_calls w \<and> payload (run_gets gs w) = payload w
     \<and> flagged (run_gets gs w)"
  by (induction gs w rule: run_gets.induct) (simp_all add: flagged_get)

lemma shm_cleanup: "shm (cleanup_shm_logger m w) = shm w"
  by (simp add: cleanup_shm_logger_def action_defs split: option.splits)

lemma get_keeps_object: 
  "shm w SHM_NAME \<noteq> None \<Longrightarrow> shm (snd (get_shm_logger_with c m e w)) SHM_NAME \<noteq> None"
  by (cases rule: get_cases [where w=w and m=m and e=e and c=c])
     (simp_all add: get_cached get_open_fails get_ftruncate_fails get_mmap_fails get_already
        get_throws get_constructs)

lemma run_calls_keeps_object:
  "shm w SHM_NAME \<noteq> None \<Longrightarrow> shm (run_calls cs w) SHM_NAME \<noteq> None"
  by (induction cs w rule: run_calls.induct) (simp_all add: get_keeps_object shm_cleanup)

lemma flagged_cleanup: "flagged (cleanup_shm_logger m w) = flagged w"
  and payload_cleanup: "payload (cleanup_shm_logger m w) = payload w"
  by (simp_all add: flagged_def payload_def shm_cleanup)

lemma flagged_run_calls:
  "flagged w \<Longrightarrow> payload (run_calls cs w) = payload w \<and> flagged (run_calls cs w)"
  by (induction cs w rule: run_calls.induct) (simp_all add: flagged_get flagged_cleanup payload_cleanup)

text \<open>
  C4.  The claim fails in two places.  A failing \<open>shm_open\<close> ends the call in
  \<open>std::abort()\<close>: the process is terminated and nothing, neither a reference nor an
  error, is handed back to the caller.  And when the open succeeds and the region cannot
  be mapped, the failure need not be the one of \<open>mmap\<close>: with a failing
  \<open>ftruncate\<close> the call aborts before \<open>mmap\<close> is reached.
\<close>

theorem acquire_failure_not_handed_to_caller_counterexample:
  "fst (get_shm_logger 0 \<lparr>shm_open_ret = - 1, ftruncate_ret = 0, mmap_ret = None\<rparr> fresh_world)
     = Inl (Abort Shm_open_failed)
   \<and> \<not> handed_to_caller
        (fst (get_shm_logger 0 \<lparr>shm_open_ret = - 1, ftruncate_ret = 0, mmap_ret = None\<rparr>
               fresh_world))
   \<and> fst (get_shm_logger 0 \<lparr>shm_open_ret = 3, ftruncate_ret = - 1, mmap_ret = None\<rparr> fresh_world)
     = Inl (Abort Ftruncate_failed)"
  by (simp add: get_shm_logger_def get_open_fails get_ftruncate_fails fresh_world_def)

text \<open>
  C4, as the code has it.  In a mapper that has not run its initialisation yet, each of
  the three system calls can end the call, and each does so by \<open>perror\<close> and
  \<open>std::abort()\<close>: a failing \<open>shm_open\<close> (the spec's RegionUnavailable) after that one
  attempt, with the world otherwise as before the call; a failing \<open>ftruncate\<close> after
  \<open>shm_open\<close>, with the descriptor closed; a failing \<open>mmap\<close> (the spec's
  MappingFailed) after \<open>shm_open\<close> and \<open>ftruncate\<close> succeeded.  In each case every
  system call was issued once (nothing is retried), no mapping was added and the mapper's
  statics are untouched (nothing is swallowed: \<open>g_block\<close> stays null and the once-flag
  unconsumed), and the call hands nothing back to its caller: the process is terminated.
  With successful system calls the call never aborts.
\<close>

theorem acquire_failures_abort_process:
  assumes "\<not> g_init_flag (mods w m)"
  shows "(shm_open_ret e < 0 \<longrightarrow>
           get_shm_logger_with c m e w =
             (Inl (Abort Shm_open_failed),
              w\<lparr>trace := trace w @ [(m, Sys_shm_open), (m, Perror ''shm_open failed'')]\<rparr>))
       \<and> (0 \<le> shm_open_ret e \<and> ftruncate_ret e < 0 \<longrightarrow>
           fst (get_shm_logger_with c m e w) = Inl (Abort Ftruncate_failed)
           \<and> vm (snd (get_shm_logger_with c m e w)) = vm w
           \<and> mods (snd (get_shm_logger_with c m e w)) = mods w
           \<and> trace (snd (get_shm_logger_with c m e w)) =
               trace w @ [(m, Sys_shm_open), (m, Sys_ftruncate),
                          (m, Perror ''ftruncate failed''), (m, Sys_close)])
       \<and> (0 \<le> shm_open_ret e \<and> 0 \<le> ftruncate_ret e \<and> mmap_ret e = None \<longrightarrow>
           fst (get_shm_logger_with c m e w) = Inl (Abort Mmap_failed)
           \<and> vm (snd (get_shm_logger_with c m e w)) = vm w
           \<and> mods (snd (get_shm_logger_with c m e w)) = mods w
           \<and> trace (snd (get_shm_logger_with c m e w)) =
               trace w @ [(m, Sys_shm_open), (m, Sys_ftruncate), (m, Sys_mmap), (m, Sys_close),
                          (m, Perror ''mmap failed'')])
       \<and> (\<not> syscalls_ok e \<longrightarrow> \<not> handed_to_caller (fst (get_shm_logger_with c m e w)))
       \<and> (syscalls_ok e \<longrightarrow> (\<forall>r. fst (get_shm_logger_with c m e w) \<noteq> Inl (Abort r)))"
proof -
  note nf = assms
  have open_f: "get_shm_logger_with c m e w =
             (Inl (Abort Shm_open_failed),
              w\<lparr>trace := trace w @ [(m, Sys_shm_open), (m, Perror ''shm_open failed'')]\<rparr>)"
    if "shm_open_ret e < 0"
    by (rule get_open_fails [OF nf that])
  have ftr_f: "fst (get_shm_logger_with c m e w) = Inl (Abort Ftruncate_failed)
           \<and> vm (snd (get_shm_logger_with c m e w)) = vm w
           \<and> mods (snd (get_shm_logger_with c m e w)) = mods w
           \<and> trace (snd (get_shm_logger_with c m e w)) =
               trace w @ [(m, Sys_shm_open), (m, Sys_ftruncate),
                          (m, Perror ''ftruncate failed''), (m, Sys_close)]"
    if "0 \<le> shm_open_ret e" "ftruncate_ret e < 0"
    using get_ftruncate_fails(1-4) [OF nf that, of c] by simp
  have mmap_f: "fst (get_shm_logger_with c m e w) = Inl (Abort Mmap_failed)
           \<and> vm (snd (get_shm_logger_with c m e w)) = vm w
           \<and> mods (snd (get_shm_logger_with c m e w)) = mods w
           \<and> trace (snd (get_shm_logger_with c m e w)) =
               trace w @ [(m, Sys_shm_open), (m, Sys_ftruncate), (m, Sys_mmap), (m, Sys_close),
                          (m, Perror ''mmap failed'')]"
    if "0 \<le> shm_open_ret e" "0 \<le> ftruncate_ret e" "mmap_ret e = None"
    using get_mmap_fails(1-4) [OF nf that, of c] by simp
  have not_handed: "\<not> handed_to_caller (fst (get_shm_logger_with c m e w))" if "\<not> syscalls_ok e"
  proof -
    from that consider "shm_open_ret e < 0" | "0 \<le> shm_open_ret e" "ftruncate_ret e < 0"
      | "0 \<le> shm_open_ret e" "0 \<le> ftruncate_ret e" "mmap_ret e = None"
      by (cases "shm_open_ret e < 0"; cases "ftruncate_ret e < 0")
         (auto simp: syscalls_ok_def not_less)
    then show ?thesis
    proof cases
      case 1
      with open_f show ?thesis by simp
    next
      case 2
      with ftr_f show ?thesis by simp
    next
      case 3
      with mmap_f show ?thesis by simp
    qed
  qed
  have no_abort: "fst (get_shm_logger_with c m e w) \<noteq> Inl (Abort r)" if ok: "syscalls_ok e" for r
  proof (cases rule: get_cases [where w=w and m=m and e=e and c=c])
    case cached
    with nf show ?thesis by simp
  next
    case open_fails
    with ok show ?thesis by (simp add: syscalls_ok_def)
  next
    case ftruncate_fails
    with ok show ?thesis by (simp add: syscalls_ok_def)
  next
    case mmap_fails
    with ok show ?thesis by (simp add: syscalls_ok_def)
  next
    case (already a)
    from get_already(1) [OF already, of c] show ?thesis by simp
  next
    case (throws a)
    from get_throws(1) [OF throws(1-5)] throws(6) show ?thesis by simp
  next
    case (constructs a p)
    from get_constructs(1) [OF constructs(1-5), of p] constructs(6) show ?thesis by simp
  qed
  from open_f ftr_f mmap_f not_handed no_abort show ?thesis by blast
qed

theorem acquire_failures_abort_process_witness:
  "fst (get_shm_logger_with (ProcessLogger_ctor ''shared_memory'') 0
          \<lparr>shm_open_ret = - 1, ftruncate_ret = 0, mmap_ret = None\<rparr> fresh_world)
     = Inl (Abort Shm_open_failed)
   \<and> fst (get_shm_logger_with (ProcessLogger_ctor ''shared_memory'') 0
          \<lparr>shm_open_ret = 3, ftruncate_ret = - 1, mmap_ret = Some 4096\<rparr> fresh_world)
     = Inl (Abort Ftruncate_failed)
   \<and> fst (get_shm_logger_with (ProcessLogger_ctor ''shared_memory'') 0
          \<lparr>shm_open_ret = 3, ftruncate_ret = 0, mmap_ret = None\<rparr> fresh_world)
     = Inl (Abort Mmap_failed)
   \<and> \<not> handed_to_caller
        (fst (get_shm_logger_with (ProcessLogger_ctor ''shared_memory'') 0
               \<lparr>shm_open_ret = 3, ftruncate_ret = 0, mmap_ret = None\<rparr> fresh_world))
   \<and> fst (get_shm_logger_with (ProcessLogger_ctor ''shared_memory'') 0 (env_ok 4096) fresh_world)
     \<noteq> Inl (Abort Mmap_failed)"
proof -
  have nf: "\<not> g_init_flag (mods fresh_world 0)" by (simp add: fresh_world_def)
  note t = acquire_failures_abort_process [OF nf, of _ "ProcessLogger_ctor ''shared_memory''"]
  from t [of "\<lparr>shm_open_ret = - 1, ftruncate_ret = 0, mmap_ret = None\<rparr>"]
       t [of "\<lparr>shm_open_ret = 3, ftruncate_ret = - 1, mmap_ret = Some 4096\<rparr>"]
       t [of "\<lparr>shm_open_ret = 3, ftruncate_ret = 0, mmap_ret = None\<rparr>"]
       t [of "env_ok 4096"]
  show ?thesis by (simp add: syscalls_ok_def env_ok_def)
qed

text \<open>
  C7.  Once a call of \<open>get_shm_logger\<close> has returned a reference in a mapper, every
  further call in that mapper returns the same address and leaves the whole world as it
  is: no system call is issued, no mapping is added, whatever the operating system would
  have answered.
\<close>

theorem acquire_idempotent:
  assumes "get_shm_logger_with c m e w = (Inr a, w')"
  shows "get_shm_logger_with c' m e' w' = (Inr a, w')"
  using get_returns_flag [OF assms] by (simp add: get_cached return_storage_def)

lemma first_call:
  "get_shm_logger_with (Some p) m (env_ok a) fresh_world =
     (Inr a, snd (get_shm_logger_with (Some p) m (env_ok a) fresh_world))"
proof -
  have "fst (get_shm_logger_with (Some p) m (env_ok a) fresh_world) = Inr a"
    by (rule get_constructs(1)) (simp_all add: env_ok_def fresh_world_def flagged_def)
  then show ?thesis by (simp add: prod_eq_iff)
qed

theorem acquire_idempotent_witness:
  "get_shm_logger (0::nat) (env_ok 8192)
     (snd (get_shm_logger 0 (env_ok 4096) fresh_world))
   = (Inr 4096, snd (get_shm_logger 0 (env_ok 4096) fresh_world))"
  unfolding get_shm_logger_def ProcessLogger_ctor_def 
  by (rule acquire_idempotent [OF first_call])

text \<open>
  C10.  After a successful \<open>get_shm_logger\<close>, \<open>cleanup_shm_logger\<close> leaves
  \<open>g_block\<close> null while the once-flag stays consumed; any later \<open>get_shm_logger\<close>
  in that mapper therefore skips \<open>init_shm_block\<close> (the world is unchanged) and
  dereferences the null \<open>g_block\<close>.
\<close>

theorem get_after_cleanup_null_deref:
  assumes "get_shm_logger_with c m e w = (Inr a, w1)"
  shows "g_block (mods (cleanup_shm_logger m w1) m) = None
       \<and> g_init_flag (mods (cleanup_shm_logger m w1) m)
       \<and> get_shm_logger_with c' m e' (cleanup_shm_logger m w1) =
           (Inl Null_deref, cleanup_shm_logger m w1)"
proof -
  from get_returns_flag [OF assms]
  have *: "g_block (mods (cleanup_shm_logger m w1) m) = None"
       "g_init_flag (mods (cleanup_shm_logger m w1) m)"
    by (simp_all add: cleanup_shm_logger_def action_defs)
  then show ?thesis by (simp add: get_cached return_storage_def)
qed

theorem get_after_cleanup_null_deref_witness:
  "get_shm_logger (0::nat) (env_ok 8192)
     (cleanup_shm_logger 0 (snd (get_shm_logger 0 (env_ok 4096) fresh_world)))
   = (Inl Null_deref, cleanup_shm_logger 0 (snd (get_shm_logger 0 (env_ok 4096) fresh_world)))"
  unfolding get_shm_logger_def ProcessLogger_ctor_def 
  using get_after_cleanup_null_deref [OF first_call] by simp

text \<open>
  C5.  When the flag of the named object is already true, a call of \<open>get_shm_logger\<close>
  with any constructor enters no constructor and leaves the payload as it is.  In a
  well-formed world a returned reference designates a mapping of the named object.  The
  call does return a reference when the mapper is new and its system calls succeed (it
  then prints ``already initialized''), and when the mapper holds its cached block (the
  world is then unchanged).
\<close>

theorem flag_set_no_construction:
  assumes "flagged w" "get_shm_logger_with c m e w = (r, w')"
  shows "ctor_calls w' = ctor_calls w \<and> payload w' = payload w
       \<and> (wf_world w \<longrightarrow>
            (\<forall>a. r = Inr a \<longrightarrow> vm w' m a = Some SHM_NAME \<and> shm w' SHM_NAME \<noteq> None))
       \<and> (\<not> g_init_flag (mods w m) \<and> syscalls_ok e \<longrightarrow>
            (\<exists>a. r = Inr a) \<and> last (trace w') = (m, Cout_already_initialized))
       \<and> (g_init_flag (mods w m) \<and> g_block (mods w m) \<noteq> None \<longrightarrow> (\<exists>a. r = Inr a) \<and> w' = w)"
proof -
  have 1: "ctor_calls w' = ctor_calls w \<and> payload w' = payload w"
    using flagged_get(1,2) [OF assms(1), of c m e] assms(2) by simp
  have 2: "\<forall>a. r = Inr a \<longrightarrow> vm w' m a = Some SHM_NAME \<and> shm w' SHM_NAME \<noteq> None"
    if "wf_world w"
    using wf_returned_resolves [OF that] assms(2) by blast
  have 3: "\<not> g_init_flag (mods w m) \<and> syscalls_ok e \<longrightarrow>
            (\<exists>a. r = Inr a) \<and> last (trace w') = (m, Cout_already_initialized)"
    using flagged_get_returns [OF assms(1), of m e c] assms(2) by simp
  have 4: "g_init_flag (mods w m) \<and> g_block (mods w m) \<noteq> None \<longrightarrow> (\<exists>a. r = Inr a) \<and> w' = w"
    using assms(2) by (auto simp: get_cached return_storage_def)
  from 1 2 3 4 show ?thesis by blast
qed

lemma first_world_facts:
  "wf_world first_world" "flagged first_world" "payload first_world = Some \<lparr>tag = ''first''\<rparr>"
  "ctor_calls first_world = 1"
proof -
  have pre: "\<not> g_init_flag (mods fresh_world 0)" "0 \<le> shm_open_ret (env_ok 4096)"
    "0 \<le> ftruncate_ret (env_ok 4096)" "mmap_ret (env_ok 4096) = Some 4096" "\<not> flagged fresh_world"
    by (simp_all add: env_ok_def fresh_world_def flagged_def)
  note r = get_constructs [OF pre, of "\<lparr>tag = ''first''\<rparr>"]
  show "wf_world first_world" unfolding first_world_def by (rule wf_get [OF wf_fresh])
  show "flagged first_world" unfolding first_world_def ProcessLogger_ctor_def by (rule r(5))
  show "payload first_world = Some \<lparr>tag = ''first''\<rparr>"
    unfolding first_world_def ProcessLogger_ctor_def by (rule r(6))
  show "ctor_calls first_world = 1"
    unfolding first_world_def ProcessLogger_ctor_def
    by (simp add: ctor_calls_append [OF r(4)]) (simp add: ctor_calls_def fresh_world_def)
qed

theorem flag_set_no_construction_witness:
  "payload (snd (get_shm_logger_with (ProcessLogger_ctor ''second'') 1 (env_ok 8192) first_world))
     = Some \<lparr>tag = ''first''\<rparr>
   \<and> ctor_calls (snd (get_shm_logger_with (ProcessLogger_ctor ''second'') 1 (env_ok 8192) first_world)) = 1
   \<and> (\<exists>a. fst (get_shm_logger_with (ProcessLogger_ctor ''second'') 1 (env_ok 8192) first_world) = Inr a
          \<and> vm (snd (get_shm_logger_with (ProcessLogger_ctor ''second'') 1 (env_ok 8192) first_world)) 1 a
              = Some SHM_NAME)"
proof -
  have fl: "\<not> g_init_flag (mods first_world 1)"
    unfolding first_world_def ProcessLogger_ctor_def
    by (simp add: get_other_mapper) (simp add: fresh_world_def)
  have ok: "syscalls_ok (env_ok 8192)" by (simp add: syscalls_ok_def env_ok_def)
  from flag_set_no_construction [OF first_world_facts(2) surjective_pairing,
      of "ProcessLogger_ctor ''second''" 1 "env_ok 8192"] fl ok first_world_facts(1,3,4)
  show ?thesis by auto
qed

text \<open>
  C9.  \<open>cleanup_shm_logger\<close> leaves every named object as it is and issues at most the
  one \<open>munmap\<close>.  Over any sequence of \<open>get_shm_logger\<close> and
  \<open>cleanup_shm_logger\<close> calls by any mappers, the named object, once it exists, keeps
  existing (it is never unlinked), and the payload of an initialised object stays what it
  is (it is never destroyed).
\<close>

theorem region_never_unlinked_payload_never_destroyed:
  "shm (cleanup_shm_logger m w) = shm w
   \<and> trace (cleanup_shm_logger m w) =
       trace w @ (case g_block (mods w m) of None \<Rightarrow> [] | Some a \<Rightarrow> [(m, Sys_munmap)])
   \<and> (shm w SHM_NAME \<noteq> None \<longrightarrow> shm (run_calls cs w) SHM_NAME \<noteq> None)
   \<and> (flagged w \<longrightarrow> payload (run_calls cs w) = payload w)"
  using run_calls_keeps_object [of w cs] flagged_run_calls [of w cs]
  by (simp add: shm_cleanup) (simp add: cleanup_shm_logger_def action_defs split: option.splits)

theorem region_never_unlinked_payload_never_destroyed_witness:
  "shm (run_calls demo_run first_world) SHM_NAME \<noteq> None
   \<and> payload (run_calls demo_run first_world) = Some \<lparr>tag = ''first''\<rparr>"
proof -
  have "shm first_world SHM_NAME \<noteq> None"
    using first_world_facts(2) by (auto simp: flagged_def split: option.splits)
  with region_never_unlinked_payload_never_destroyed [of 0 first_world demo_run]
    first_world_facts(2,3)
  show ?thesis by simp
qed

text \<open>
  C3.  In a well-formed world whose flag is still false, a call whose constructor throws
  ends with the exception, the flag already true, the payload bytes unconstructed and one
  constructor call counted.  After any further calls, every caller still finds one
  constructor call and unconstructed payload bytes: no call constructs again.  A caller
  whose system calls succeed is returned a reference to the mapped object, and a mapper
  that runs its initialisation then prints ``already initialized''.
\<close>

theorem ctor_failure_is_permanent:
  assumes "wf_world w" "\<not> flagged w" "syscalls_ok e"
    and "get_shm_logger_with None m e w = (r, w1)"
    and "w2 = run_gets gs w1"
    and "get_shm_logger_with c' m' e' w2 = (r', w3)"
  shows "r = Inl Ctor_exception \<and> flagged w1 \<and> payload w1 = None \<and> ctor_calls w1 = 1
       \<and> ctor_calls w3 = 1 \<and> payload w3 = None
       \<and> (syscalls_ok e' \<longrightarrow> (\<exists>a. r' = Inr a \<and> vm w3 m' a = Some SHM_NAME))
       \<and> (syscalls_ok e' \<and> \<not> g_init_flag (mods w2 m') \<longrightarrow>
            last (trace w3) = (m', Cout_already_initialized))"
proof -
  have nf: "\<And>m. \<not> g_init_flag (mods w m)" using assms(1,2) unfolding wf_world_def by blast
  then have pl: "pointers_live w" by (simp add: pointers_live_def)
  from assms(3) obtain a where a: "0 \<le> shm_open_ret e" "0 \<le> ftruncate_ret e" "mmap_ret e = Some a"
    by (auto simp: syscalls_ok_def)
  note t = get_throws [OF nf [of m] a assms(2)]
  have c0: "ctor_calls w = 0" using assms(1,2) unfolding wf_world_def by simp
  have p0: "payload w = None" using assms(1,2) unfolding wf_world_def by simp
  have 1: "r = Inl Ctor_exception" "flagged w1" "payload w1 = None" "ctor_calls w1 = 1"
    using t(1,5,6) ctor_calls_append [OF t(4)] assms(4) c0 p0 by simp_all
  have wf1: "wf_world w1" using wf_get [OF assms(1), of None m e] assms(4) by simp
  have pl1: "pointers_live w1" using pointers_live_get [OF pl, of None m e] assms(4) by simp
  have wf2: "wf_world w2" unfolding assms(5) by (rule wf_run_gets [OF wf1])
  have pl2: "pointers_live w2" unfolding assms(5) by (rule pointers_live_run_gets [OF pl1])
  have 2: "ctor_calls w2 = 1" "payload w2 = None" "flagged w2"
    using flagged_run_gets [OF 1(2), of gs] 1(3,4) assms(5) by simp_all
  have 3: "ctor_calls w3 = 1" "payload w3 = None"
    using flagged_get(1,2) [OF 2(3), of c' m' e'] assms(6) 2(1,2) by simp_all
  have 4: "\<exists>a. r' = Inr a \<and> vm w3 m' a = Some SHM_NAME" if ok: "syscalls_ok e'"
  proof (cases "g_init_flag (mods w2 m')")
    case True
    with pl2 obtain b where "g_block (mods w2 m') = Some b" by (auto simp: pointers_live_def)
    with True assms(6) have "r' = Inr b" by (simp add: get_cached return_storage_def)
    with wf_returned_resolves [OF wf2] assms(6) show ?thesis by blast
  next
    case False
    from flagged_get_returns(1) [OF 2(3) False ok, of c'] assms(6)
    obtain b where "r' = Inr b" by auto
    with wf_returned_resolves [OF wf2] assms(6) show ?thesis by blast
  qed
  have 5: "last (trace w3) = (m', Cout_already_initialized)"
    if "syscalls_ok e'" "\<not> g_init_flag (mods w2 m')"
    using flagged_get_returns(2) [OF 2(3) that(2,1), of c'] assms(6) by simp
  from 1 3 4 5 show ?thesis by blast
qed

theorem ctor_failure_is_permanent_witness:
  "fst (get_shm_logger_with None 0 (env_ok 4096) fresh_world) = Inl Ctor_exception
   \<and> payload (snd (get_shm_logger_with (ProcessLogger_ctor ''shared_memory'') 0 (env_ok 8192)
        (run_gets [(ProcessLogger_ctor ''shared_memory'', 1, env_ok 4096)]
           (snd (get_shm_logger_with None 0 (env_ok 4096) fresh_world))))) = None
   \<and> (\<exists>a. fst (get_shm_logger_with (ProcessLogger_ctor ''shared_memory'') 0 (env_ok 8192)
        (run_gets [(ProcessLogger_ctor ''shared_memory'', 1, env_ok 4096)]
           (snd (get_shm_logger_with None 0 (env_ok 4096) fresh_world)))) = Inr a)"
proof -
  have nf: "\<not> flagged fresh_world" by (simp add: flagged_def fresh_world_def)
  have ok: "syscalls_ok (env_ok 4096)" "syscalls_ok (env_ok 8192)"
    by (simp_all add: syscalls_ok_def env_ok_def)
  from ctor_failure_is_permanent [OF wf_fresh nf ok(1) surjective_pairing refl surjective_pairing,
      where m = 0 and gs = "[(ProcessLogger_ctor ''shared_memory'', 1, env_ok 4096)]"
        and c' = "ProcessLogger_ctor ''shared_memory''" and m' = 0 and e' = "env_ok 8192"] ok(2)
  show ?thesis by blast
qed

section \<open>Invariants of interleaved runs\<close>

lemma run_sched_Nil [simp]: "run_sched [] cf = cf"
  and run_sched_Cons [simp]: "run_sched (x # xs) cf = run_sched xs (step x cf)"
  by (simp_all add: run_sched_def)

lemma run_sched_append: "run_sched (xs @ ys) cf = run_sched ys (run_sched xs cf)"
  by (simp add: run_sched_def)

lemma step_at:
  assumes "i < length ths" "ths ! i = \<lparr>th_mapper = m, th_ctor = c, th_pc = p\<rparr>"
  shows "step (i, e) \<lparr>the_world = w, the_threads = ths\<rparr> =
     \<lparr>the_world = snd (step_thread e ths m c p w),
      the_threads = ths[i := \<lparr>th_mapper = m, th_ctor = c, th_pc = fst (step_thread e ths m c p w)\<rparr>]\<rparr>"
  using assms by (simp add: step_def split: prod.splits)

lemma nine: "replicate 9 x = [x, x, x, x, x, x, x, x, x]"
  by (simp add: numeral_eq_Suc)

lemma emit_obs [simp]:
  "flagged (emit m ev w) = flagged w"
  "payload (emit m ev w) = payload w"
  "ctor_calls (emit m ev w) = ctor_calls w + (if ev = Ctor_call then 1 else 0)"
  "vm_named (emit m ev w) = vm_named w"
  "mods (emit m ev w) = mods w"
  by (simp_all add: emit_def obs_defs vm_named_def)

lemma do_shm_open_obs [simp]:
  "flagged (do_shm_open m e w) = flagged w"
  "payload (do_shm_open m e w) = payload w"
  "ctor_calls (do_shm_open m e w) = ctor_calls w"
  "vm_named (do_shm_open m e w) = vm_named w"
  "mods (do_shm_open m e w) = mods w"
  by (simp_all add: do_shm_open_def emit_def obs_defs vm_named_def zero_block_def)

lemma do_ftruncate_obs [simp]:
  "flagged (do_ftruncate m e w) = flagged w"
  "payload (do_ftruncate m e w) = payload w"
  "ctor_calls (do_ftruncate m e w) = ctor_calls w"
  "vm_named (do_ftruncate m e w) = vm_named w"
  "mods (do_ftruncate m e w) = mods w"
  by (simp_all add: do_ftruncate_def emit_def obs_defs vm_named_def split: option.splits)

lemma do_mmap_obs [simp]:
  "flagged (do_mmap m e w) = flagged w"
  "payload (do_mmap m e w) = payload w"
  "ctor_calls (do_mmap m e w) = ctor_calls w"
  "vm_named w \<Longrightarrow> vm_named (do_mmap m e w)"
  "mods (do_mmap m e w) = mods w"
  by (simp_all add: do_mmap_def emit_def obs_defs vm_named_def split: option.splits)

lemma do_close_obs [simp]:
  "flagged (do_close m w) = flagged w"
  "payload (do_close m w) = payload w"
  "ctor_calls (do_close m w) = ctor_calls w"
  "vm_named (do_close m w) = vm_named w"
  "mods (do_close m w) = mods w"
  by (simp_all add: do_close_def)

lemma set_g_block_obs [simp]:
  "flagged (set_g_block m p w) = flagged w"
  "payload (set_g_block m p w) = payload w"
  "ctor_calls (set_g_block m p w) = ctor_calls w"
  "vm_named (set_g_block m p w) = vm_named w"
  "g_init_flag (mods (set_g_block m p w) m') = g_init_flag (mods w m')"
  by (simp_all add: set_g_block_def obs_defs vm_named_def)

lemma set_g_init_flag_obs [simp]:
  "flagged (set_g_init_flag m w) = flagged w"
  "payload (set_g_init_flag m w) = payload w"
  "ctor_calls (set_g_init_flag m w) = ctor_calls w"
  "vm_named (set_g_init_flag m w) = vm_named w"
  "g_init_flag (mods (set_g_init_flag m w) m') = (m' = m \<or> g_init_flag (mods w m'))"
  by (simp_all add: set_g_init_flag_def obs_defs vm_named_def)

lemma cas_effect:
  assumes "vm_named w"
  shows "(\<exists>f. cas_initialized m w = Inl f)
       \<or> (cas_initialized m w = Inr (False, w) \<and> flagged w)
       \<or> (\<exists>w5. cas_initialized m w = Inr (True, w5) \<and> \<not> flagged w \<and> flagged w5
             \<and> payload w5 = payload w \<and> ctor_calls w5 = ctor_calls w \<and> vm_named w5
             \<and> mods w5 = mods w)"
  using assms
  by (auto simp: cas_initialized_def deref_g_block_def obs_defs vm_named_def
      split: option.splits)

lemma placement_new_effect:
  "ctor_calls (snd (placement_new c m w)) = ctor_calls w + 1"
  "flagged (snd (placement_new c m w)) = flagged w"
  "vm_named (snd (placement_new c m w)) = vm_named w"
  "mods (snd (placement_new c m w)) = mods w"
  by (auto simp: placement_new_def deref_g_block_def emit_def obs_defs vm_named_def Let_def
      split: option.splits)

lemma step_thread_effect:
  assumes vn: "vm_named w"
    and fl: "p = At_new \<or> p = At_init_return \<longrightarrow> flagged w"
    and rt: "p = At_return \<or> (\<exists>a. p = Done (Inr a)) \<longrightarrow> g_init_flag (mods w m)"
    and pl: "\<not> flagged w \<longrightarrow> payload w = None"
    and st: "step_thread e ths m c p w = (p', w')"
  shows "vm_named w'"
    and "ctor_calls w' + (if p' = At_new then 1 else 0) + (if flagged w then 1 else 0) =
         ctor_calls w + (if p = At_new then 1 else 0) + (if flagged w' then 1 else (0::nat))"
    and "flagged w \<longrightarrow> flagged w'"
    and "p' = At_new \<or> p' = At_init_return \<longrightarrow> flagged w'"
    and "p' = At_return \<or> (\<exists>a. p' = Done (Inr a)) \<longrightarrow> g_init_flag (mods w' m)"
    and "\<forall>m'. g_init_flag (mods w' m') \<longleftrightarrow> g_init_flag (mods w m') \<or> (m' = m \<and> p = At_init_return)"
    and "in_init p' \<and> \<not> in_init p \<longrightarrow> \<not> g_init_flag (mods w m) \<and> \<not> active m ths"
    and "\<not> flagged w' \<longrightarrow> payload w' = None"
    and "p = At_init_return \<longrightarrow> p' = At_return"
proof -
  have "vm_named w'
    \<and> ctor_calls w' + (if p' = At_new then 1 else 0) + (if flagged w then 1 else 0) =
         ctor_calls w + (if p = At_new then 1 else 0) + (if flagged w' then 1 else (0::nat))
    \<and> (flagged w \<longrightarrow> flagged w')
    \<and> (p' = At_new \<or> p' = At_init_return \<longrightarrow> flagged w')
    \<and> (p' = At_return \<or> (\<exists>a. p' = Done (Inr a)) \<longrightarrow> g_init_flag (mods w' m))
    \<and> (\<forall>m'. g_init_flag (mods w' m') \<longleftrightarrow> g_init_flag (mods w m') \<or> (m' = m \<and> p = At_init_return))
    \<and> (in_init p' \<and> \<not> in_init p \<longrightarrow> \<not> g_init_flag (mods w m) \<and> \<not> active m ths)
    \<and> (\<not> flagged w' \<longrightarrow> payload w' = None)
    \<and> (p = At_init_return \<longrightarrow> p' = At_return)"
  proof (cases p)
    case At_call_once
    with assms show ?thesis by (auto split: if_splits)
  next
    case At_shm_open
    with assms show ?thesis by (auto simp: Let_def split: if_splits)
  next
    case At_ftruncate
    with assms show ?thesis by (auto simp: Let_def split: if_splits)
  next
    case At_mmap
    with assms show ?thesis by (auto simp: Let_def split: option.splits)
  next
    case (At_assign a)
    with assms show ?thesis by auto
  next
    case At_cas
    with assms cas_effect [OF vn, of m] show ?thesis
      by (auto split: sum.splits bool.splits)
  next
    case At_new
    with assms placement_new_effect [of c m w] show ?thesis
      by (auto split: prod.splits option.splits)
  next
    case At_init_return
    with assms show ?thesis by auto
  next
    case At_return
    with assms show ?thesis by (auto simp: return_storage_def split: option.splits)
  next
    case (Done r)
    with assms show ?thesis by auto
  qed
  then show "vm_named w'"
    and "ctor_calls w' + (if p' = At_new then 1 else 0) + (if flagged w then 1 else 0) =
         ctor_calls w + (if p = At_new then 1 else 0) + (if flagged w' then 1 else (0::nat))"
    and "flagged w \<longrightarrow> flagged w'"
    and "p' = At_new \<or> p' = At_init_return \<longrightarrow> flagged w'"
    and "p' = At_return \<or> (\<exists>a. p' = Done (Inr a)) \<longrightarrow> g_init_flag (mods w' m)"
    and "\<forall>m'. g_init_flag (mods w' m') \<longleftrightarrow> g_init_flag (mods w m') \<or> (m' = m \<and> p = At_init_return)"
    and "in_init p' \<and> \<not> in_init p \<longrightarrow> \<not> g_init_flag (mods w m) \<and> \<not> active m ths"
    and "\<not> flagged w' \<longrightarrow> payload w' = None"
    and "p = At_init_return \<longrightarrow> p' = At_return"
    by blast+
qed

lemma length_filter_update:
  "i < length xs \<Longrightarrow>
     length (filter P (xs[i := y])) + (if P (xs ! i) then 1 else 0) =
     length (filter P xs) + (if P y then 1 else 0)"
proof (induction xs arbitrary: i)
  case Nil
  then show ?case by simp
next
  case (Cons x xs)
  then show ?case by (cases i) auto
qed

lemma not_active_iff: "\<not> active m ths \<longleftrightarrow> length (filter (initialising m) ths) = 0"
  by (simp add: active_def list_ex_iff filter_empty_conv)

lemma conf_inv_step:
  assumes inv: "conf_inv cf"
  shows "conf_inv (step (i, e) cf)"
proof (cases "i < length (the_threads cf)")
  case False
  with inv show ?thesis by (simp add: step_def)
next
  case True
  define w where "w = the_world cf"
  define ths where "ths = the_threads cf"
  define t where "t = ths ! i"
  define m where "m = th_mapper t"
  define p where "p = th_pc t"
  obtain p' w' where st: "step_thread e ths m (th_ctor t) p w = (p', w')" by fastforce
  define t' where "t' = t\<lparr>th_pc := p'\<rparr>"
  define ths' where "ths' = ths[i := t']"
  have i: "i < length ths" using True by (simp add: ths_def)
  have res: "step (i, e) cf = \<lparr>the_world = w', the_threads = ths'\<rparr>"
    using True st by (simp add: step_def w_def ths_def t_def m_def p_def t'_def ths'_def)
  have tin: "t \<in> set ths" using i by (simp add: t_def)
  from inv have vn: "vm_named w"
    and cnt: "ctor_calls w + length (filter at_new ths) = (if flagged w then 1 else 0)"
    and ex: "\<And>m. length (filter (initialising m) ths) \<le> 1"
    and fl: "\<And>m. g_init_flag (mods w m) \<Longrightarrow> flagged w \<and> length (filter (initialising m) ths) = 0"
    and th: "\<And>u. u \<in> set ths \<Longrightarrow>
          (th_pc u = At_new \<or> th_pc u = At_init_return \<longrightarrow> flagged w) \<and>
          (th_pc u = At_return \<or> returned u \<longrightarrow> g_init_flag (mods w (th_mapper u)))"
    and pl: "\<not> flagged w \<longrightarrow> payload w = None"
    by (simp_all add: conf_inv_def w_def ths_def)
  have ret: "returned u \<longleftrightarrow> (\<exists>a. th_pc u = Done (Inr a))" for u
    by (auto simp: returned_def split: pc.splits sum.splits)
  have h1: "p = At_new \<or> p = At_init_return \<longrightarrow> flagged w"
    and h2: "p = At_return \<or> (\<exists>a. p = Done (Inr a)) \<longrightarrow> g_init_flag (mods w m)"
    using th [OF tin] by (simp_all add: p_def m_def ret)
  note E = step_thread_effect [OF vn h1 h2 pl st]
  have upd: "length (filter P ths') + (if P t then 1 else 0) =
             length (filter P ths) + (if P t' then 1 else 0)" for P
    unfolding ths'_def t_def by (rule length_filter_update [OF i])
  have an: "at_new t \<longleftrightarrow> p = At_new" "at_new t' \<longleftrightarrow> p' = At_new"
    by (simp_all add: at_new_def p_def t'_def)
  have ini: "initialising k t \<longleftrightarrow> k = m \<and> in_init p" "initialising k t' \<longleftrightarrow> k = m \<and> in_init p'" for k
    by (auto simp: initialising_def p_def m_def t'_def)
  have c2: "ctor_calls w' + length (filter at_new ths') = (if flagged w' then 1 else 0)"
    using cnt E(2) upd [of at_new] an by (simp split: if_splits)
  have c3: "length (filter (initialising k) ths') \<le> 1" for k
    using ex [of k] upd [of "initialising k"] ini [of k] E(7) not_active_iff [of m ths]
    by (simp split: if_splits)
  have c4: "flagged w' \<and> filter (initialising k) ths' = []" if g: "g_init_flag (mods w' k)" for k
  proof -
    from g E(6) have "g_init_flag (mods w k) \<or> (k = m \<and> p = At_init_return)" by blast
    then show ?thesis
    proof
      assume a: "g_init_flag (mods w k)"
      from fl [OF a] E(3) have "flagged w'" by blast
      moreover have "length (filter (initialising k) ths') = 0"
        using fl [OF a] upd [of "initialising k"] ini [of k] E(7) a
        by (simp split: if_splits)
      ultimately show ?thesis by simp
    next
      assume a: "k = m \<and> p = At_init_return"
      with h1 E(3) have "flagged w'" by blast
      moreover from a E(9) have "p' = At_return" by blast
      with a have "length (filter (initialising k) ths') = 0"
        using ex [of k] upd [of "initialising k"] ini [of k]
        by (simp split: if_splits del: length_0_conv)
      ultimately show ?thesis by simp
    qed
  qed
  have c5: "(th_pc u = At_new \<or> th_pc u = At_init_return \<longrightarrow> flagged w') \<and>
          (th_pc u = At_return \<or> returned u \<longrightarrow> g_init_flag (mods w' (th_mapper u)))"
    if u: "u \<in> set ths'" for u
  proof -
    from u have "u = t' \<or> u \<in> set ths" unfolding ths'_def
      using set_update_subset_insert [of ths i t'] by auto
    then show ?thesis
    proof
      assume "u = t'"
      then have "th_pc u = p'" "th_mapper u = m" by (simp_all add: t'_def m_def)
      with E(4,5) show ?thesis by (simp add: ret)
    next
      assume "u \<in> set ths"
      from th [OF this] E(3,6) show ?thesis by blast
    qed
  qed
  show ?thesis
    unfolding res conf_inv_def using E(1) c2 c3 c4 c5 E(8) by simp
qed

lemma conf_inv_run: "conf_inv cf \<Longrightarrow> conf_inv (run_sched sched cf)"
proof (induction sched arbitrary: cf)
  case Nil
  then show ?case by simp
next
  case (Cons x sched)
  then show ?case by (cases x) (simp add: conf_inv_step)
qed

lemma conf_inv_start:
  assumes "wf_world w" "\<forall>t \<in> set ths. th_pc t = At_call_once"
  shows "conf_inv \<lparr>the_world = w, the_threads = ths\<rparr>"
proof -
  from assms(2) have "filter at_new ths = []" "\<And>m. filter (initialising m) ths = []"
    by (auto simp: filter_empty_conv at_new_def initialising_def)
  moreover from assms(2) have "\<forall>t \<in> set ths. \<not> returned t"
    by (simp add: returned_def)
  ultimately show ?thesis using assms unfolding conf_inv_def wf_world_def vm_named_def
    by auto
qed

lemma step_mappers: "map th_mapper (the_threads (step ie cf)) = map th_mapper (the_threads cf)"
  by (cases ie) (simp add: step_def Let_def map_update list_update_same_conv split: prod.splits)

lemma run_mappers: "map th_mapper (the_threads (run_sched sched cf)) = map th_mapper (the_threads cf)"
  by (induction sched arbitrary: cf) (simp_all add: step_mappers)

lemma conf_invD:
  assumes "conf_inv cf"
  shows "vm_named (the_world cf)"
    and "ctor_calls (the_world cf) + length (filter at_new (the_threads cf)) =
           (if flagged (the_world cf) then 1 else 0)"
    and "length (filter (initialising m) (the_threads cf)) \<le> 1"
    and "g_init_flag (mods (the_world cf) m) \<Longrightarrow>
           flagged (the_world cf) \<and> filter (initialising m) (the_threads cf) = []"
    and "t \<in> set (the_threads cf) \<Longrightarrow> th_pc t = At_new \<or> th_pc t = At_init_return \<Longrightarrow>
           flagged (the_world cf)"
    and "t \<in> set (the_threads cf) \<Longrightarrow> th_pc t = At_return \<or> returned t \<Longrightarrow>
           g_init_flag (mods (the_world cf) (th_mapper t))"
    and "\<not> flagged (the_world cf) \<Longrightarrow> payload (the_world cf) = None"
  using assms unfolding conf_inv_def by blast+

lemma uninterrupted_call:
  assumes "i < length ths" "ths ! i = caller m c" "\<not> active m ths"
  shows "run_sched (replicate 9 (i, e)) \<lparr>the_world = w, the_threads = ths\<rparr> =
     \<lparr>the_world = snd (get_shm_logger_with c m e w),
      the_threads = ths[i := \<lparr>th_mapper = m, th_ctor = c,
                                th_pc = Done (fst (get_shm_logger_with c m e w))\<rparr>]\<rparr>"
proof (cases "g_init_flag (mods w m)")
  case True
  with assms show ?thesis by (simp add: nine step_at caller_def get_cached)
next
  case nf: False
  show ?thesis
  proof (cases "shm_open_ret e < 0")
    case True
    with nf assms show ?thesis by (simp add: nine step_at caller_def op_defs)
  next
    case op: False
    show ?thesis
    proof (cases "ftruncate_ret e < 0")
      case True
      with nf op assms show ?thesis by (simp add: nine step_at caller_def op_defs)
    next
      case tr: False
      show ?thesis
      proof (cases "mmap_ret e")
        case None
        with nf op tr assms show ?thesis by (simp add: nine step_at caller_def op_defs)
      next
        case (Some a)
        with nf op tr assms show ?thesis
          by (simp add: nine step_at caller_def op_defs Let_def
              split: sum.splits prod.splits bool.splits option.splits)
      qed
    qed
  qed
qed

lemmas eval_defs = numeral_2_eq_2 caller_def step_def
      active_def initialising_def env_ok_def fresh_world_def ProcessLogger_ctor_def
      action_defs return_storage_def zero_block_def Let_def

lemma three: "replicate 3 x = [x, x, x]"
  by (simp add: numeral_3_eq_3)

lemma demo_sched_result:
  "map th_pc (the_threads (run_sched demo_sched
      \<lparr>the_world = fresh_world,
       the_threads = replicate 3 (caller 0 (ProcessLogger_ctor ''shared_memory''))\<rparr>))
     = [Done (Inr 4096), Done (Inr 4096), Done (Inr 4096)]"
  by (simp add: three demo_sched_def eval_defs)

lemma sequential_schedule:
  assumes "\<forall>t \<in> set dn. \<not> in_init (th_pc t)"
  shows "run_sched (seq_sched (length dn) gs) \<lparr>the_world = w, the_threads = dn @ callers gs\<rparr> =
           \<lparr>the_world = run_gets gs w, the_threads = dn @ finished_threads gs w\<rparr>"
  using assms
proof (induction gs arbitrary: dn w)
  case Nil
  then show ?case by (simp add: callers_def)
next
  case (Cons g gs)
  obtain c m e where g: "g = (c, m, e)" by (cases g)
  let ?ths = "dn @ callers (g # gs)"
  let ?d = "\<lparr>th_mapper = m, th_ctor = c, th_pc = Done (fst (get_shm_logger_with c m e w))\<rparr>"
  have i: "length dn < length ?ths" by (simp add: callers_def)
  have at: "?ths ! length dn = caller m c" by (simp add: callers_def g)
  have na: "\<not> active m ?ths"
    using Cons.prems by (auto simp: g active_def list_ex_iff callers_def caller_def initialising_def)
  have upd: "?ths[length dn := ?d] = (dn @ [?d]) @ callers gs"
    by (simp add: callers_def g)
  have dn': "\<forall>t \<in> set (dn @ [?d]). \<not> in_init (th_pc t)" using Cons.prems by simp
  have u: "run_sched (replicate 9 (length dn, e)) \<lparr>the_world = w, the_threads = ?ths\<rparr> =
           \<lparr>the_world = snd (get_shm_logger_with c m e w), the_threads = ?ths[length dn := ?d]\<rparr>"
    by (rule uninterrupted_call [OF i at na])
  have "run_sched (seq_sched (length dn) (g # gs)) \<lparr>the_world = w, the_threads = ?ths\<rparr> =
        run_sched (seq_sched (Suc (length dn)) gs)
          (run_sched (replicate 9 (length dn, e)) \<lparr>the_world = w, the_threads = ?ths\<rparr>)"
    by (simp only: g seq_sched.simps run_sched_append)
  also have "\<dots> = run_sched (seq_sched (Suc (length dn)) gs)
          \<lparr>the_world = snd (get_shm_logger_with c m e w), the_threads = (dn @ [?d]) @ callers gs\<rparr>"
    by (simp only: u upd)
  also have "\<dots> = \<lparr>the_world = run_gets gs (snd (get_shm_logger_with c m e w)),
                    the_threads = (dn @ [?d]) @ finished_threads gs (snd (get_shm_logger_with c m e w))\<rparr>"
    using Cons.IH [OF dn'] by simp
  finally show ?case by (simp add: g)
qed

lemma get_returns:
  assumes "wf_world w" "pointers_live w" "syscalls_ok e" "c \<noteq> None"
  shows "\<exists>a. fst (get_shm_logger_with c m e w) = Inr a"
proof (cases "g_init_flag (mods w m)")
  case True
  with assms(2) show ?thesis
    by (auto simp: get_cached return_storage_def pointers_live_def split: option.splits)
next
  case False
  from assms(3) obtain a where a: "0 \<le> shm_open_ret e" "0 \<le> ftruncate_ret e" "mmap_ret e = Some a"
    by (auto simp: syscalls_ok_def)
  from assms(4) obtain p where p: "c = Some p" by auto
  show ?thesis
  proof (cases "flagged w")
    case True
    from get_already(1) [OF False a True] show ?thesis by blast
  next
    case nf: False
    from get_constructs(1) [OF False a nf] p show ?thesis by blast
  qed
qed

lemma finished_threads_returned:
  assumes "wf_world w" "pointers_live w" "\<forall>(c, m, e) \<in> set gs. syscalls_ok e \<and> c \<noteq> None"
  shows "list_all returned (finished_threads gs w)"
  using assms
proof (induction gs w rule: finished_threads.induct)
  case (1 w)
  then show ?case by simp
next
  case (2 c m e gs w)
  from "2.prems" have ok: "syscalls_ok e" "c \<noteq> None" by simp_all
  from get_returns [OF "2.prems"(1,2) ok] obtain a where "fst (get_shm_logger_with c m e w) = Inr a"
    by blast
  moreover have "list_all returned (finished_threads gs (snd (get_shm_logger_with c m e w)))"
    using "2.prems" by (intro "2.IH" wf_get pointers_live_get) simp_all
  moreover have "returned \<lparr>th_mapper = m, th_ctor = c, th_pc = Done (Inr a)\<rparr>" for a
    by (simp add: returned_def)
  ultimately show ?case by simp
qed

lemma no_deadlock:
  assumes "\<not> list_all finished (the_threads cf)"
  shows "\<exists>i < length (the_threads cf). \<forall>e. the_threads (step (i, e) cf) \<noteq> the_threads cf"
proof -
  define ths where "ths = the_threads cf"
  have moved: "the_threads (step (i, e) cf) \<noteq> the_threads cf"
    if "i < length ths"
      and "fst (step_thread e ths (th_mapper (ths ! i)) (th_ctor (ths ! i)) (th_pc (ths ! i)) (the_world cf))
           \<noteq> th_pc (ths ! i)" for i e
  proof -
    have "th_pc (the_threads (step (i, e) cf) ! i) \<noteq> th_pc (ths ! i)"
      using that by (auto simp: step_def ths_def Let_def split: prod.splits)
    then have "the_threads (step (i, e) cf) ! i \<noteq> ths ! i" by auto
    then show ?thesis by (auto simp: ths_def)
  qed
  consider (init) i where "i < length ths" "in_init (th_pc (ths ! i))"
    | (ret) i where "i < length ths" "th_pc (ths ! i) = At_return"
    | (call) i where "i < length ths" "th_pc (ths ! i) = At_call_once"
        "\<forall>j < length ths. \<not> in_init (th_pc (ths ! j))"
  proof -
    from assms obtain i where i: "i < length ths" "\<not> finished (ths ! i)"
      by (auto simp: list_all_length ths_def)
    show ?thesis
    proof (cases "\<exists>j < length ths. in_init (th_pc (ths ! j))")
      case True
      then show ?thesis using init by blast
    next
      case False
      with i have "th_pc (ths ! i) = At_return \<or> th_pc (ths ! i) = At_call_once"
        by (cases "th_pc (ths ! i)") (auto simp: finished_def)
      with i False show ?thesis using ret call by blast
    qed
  qed
  then show ?thesis
  proof cases
    case init
    have "fst (step_thread e ths m c (th_pc (ths ! i)) w) \<noteq> th_pc (ths ! i)" for e m c w
      using init(2)
      by (cases "th_pc (ths ! i)")
         (auto simp: Let_def split: option.splits sum.splits bool.splits prod.splits)
    with moved [OF init(1)] init(1) show ?thesis unfolding ths_def by blast
  next
    case ret
    then have "fst (step_thread e ths m c (th_pc (ths ! i)) w) \<noteq> th_pc (ths ! i)" for e m c w
      by simp
    with moved [OF ret(1)] ret(1) show ?thesis unfolding ths_def by blast
  next
    case call
    from call(3) have "\<not> active m ths" for m
      by (auto simp: active_def list_ex_iff initialising_def in_set_conv_nth)
    with call(2) have "fst (step_thread e ths m c (th_pc (ths ! i)) w) \<noteq> th_pc (ths ! i)" for e m c w
      by simp
    with moved [OF call(1)] call(1) show ?thesis unfolding ths_def by blast
  qed
qed

lemma step_thread_live:
  assumes ob: "\<forall>k a. vm w k a \<noteq> None \<longrightarrow> shm w SHM_NAME \<noteq> None"
    and pk: "pc_ok w m p"
    and st: "step_thread e ths m c p w = (p', w')"
  shows "\<forall>k a. vm w' k a \<noteq> None \<longrightarrow> shm w' SHM_NAME \<noteq> None"
    and "shm w SHM_NAME \<noteq> None \<longrightarrow> shm w' SHM_NAME \<noteq> None"
    and "\<forall>k a. vm w k a = Some SHM_NAME \<longrightarrow> vm w' k a = Some SHM_NAME"
    and "\<forall>k. g_block (mods w' k) = g_block (mods w k) \<or> (k = m \<and> (\<exists>a. p = At_assign a))"
    and "pc_ok w' m p'"
    and "\<forall>a. p' = Done (Inr a) \<longrightarrow> p = Done (Inr a) \<or> g_block (mods w' m) = Some a"
    and "p \<noteq> At_new \<longrightarrow> payload w' = payload w \<and> ctor_calls w' = ctor_calls w"
    and "payload w' = payload w \<or> payload w' = c"
    and "p = At_new \<and> c \<noteq> None \<longrightarrow> payload w' = c"
proof -
  have "(\<forall>k a. vm w' k a \<noteq> None \<longrightarrow> shm w' SHM_NAME \<noteq> None)
    \<and> (shm w SHM_NAME \<noteq> None \<longrightarrow> shm w' SHM_NAME \<noteq> None)
    \<and> (\<forall>k a. vm w k a = Some SHM_NAME \<longrightarrow> vm w' k a = Some SHM_NAME)
    \<and> (\<forall>k. g_block (mods w' k) = g_block (mods w k) \<or> (k = m \<and> (\<exists>a. p = At_assign a)))
    \<and> pc_ok w' m p'
    \<and> (\<forall>a. p' = Done (Inr a) \<longrightarrow> p = Done (Inr a) \<or> g_block (mods w' m) = Some a)
    \<and> (p \<noteq> At_new \<longrightarrow> payload w' = payload w \<and> ctor_calls w' = ctor_calls w)
    \<and> (payload w' = payload w \<or> payload w' = c)
    \<and> (p = At_new \<and> c \<noteq> None \<longrightarrow> payload w' = c)"
  proof (cases p)
    case At_call_once
    with assms show ?thesis by (auto simp: pc_ok_def split: if_splits)
  next
    case At_shm_open
    with assms show ?thesis
      by (auto simp: pc_ok_def do_shm_open_def emit_def Let_def obs_defs zero_block_def
          split: if_splits)
  next
    case At_ftruncate
    with assms show ?thesis
      by (auto simp: pc_ok_def do_ftruncate_def do_close_def emit_def Let_def obs_defs
          split: if_splits option.splits)
  next
    case At_mmap
    with assms show ?thesis
      by (auto simp: pc_ok_def do_mmap_def do_close_def emit_def Let_def obs_defs
          split: if_splits option.splits)
  next
    case (At_assign a)
    with assms show ?thesis
      by (auto simp: pc_ok_def set_g_block_def emit_def obs_defs)
  next
    case At_cas
    with assms show ?thesis
      by (auto simp: pc_ok_def cas_initialized_def deref_g_block_def emit_def obs_defs
          split: if_splits option.splits sum.splits bool.splits)
  next
    case At_new
    with assms show ?thesis
      by (auto simp: pc_ok_def placement_new_def deref_g_block_def emit_def obs_defs Let_def
          split: if_splits option.splits sum.splits prod.splits)
  next
    case At_init_return
    with assms show ?thesis by (auto simp: pc_ok_def set_g_init_flag_def obs_defs)
  next
    case At_return
    with assms show ?thesis by (auto simp: pc_ok_def return_storage_def split: option.splits)
  next
    case (Done r)
    with assms show ?thesis by (auto simp: pc_ok_def)
  qed
  then show "\<forall>k a. vm w' k a \<noteq> None \<longrightarrow> shm w' SHM_NAME \<noteq> None"
    and "shm w SHM_NAME \<noteq> None \<longrightarrow> shm w' SHM_NAME \<noteq> None"
    and "\<forall>k a. vm w k a = Some SHM_NAME \<longrightarrow> vm w' k a = Some SHM_NAME"
    and "\<forall>k. g_block (mods w' k) = g_block (mods w k) \<or> (k = m \<and> (\<exists>a. p = At_assign a))"
    and "pc_ok w' m p'"
    and "\<forall>a. p' = Done (Inr a) \<longrightarrow> p = Done (Inr a) \<or> g_block (mods w' m) = Some a"
    and "p \<noteq> At_new \<longrightarrow> payload w' = payload w \<and> ctor_calls w' = ctor_calls w"
    and "payload w' = payload w \<or> payload w' = c"
    and "p = At_new \<and> c \<noteq> None \<longrightarrow> payload w' = c"
    by simp_all
qed

lemma step_thread_nofail:
  assumes ob: "\<forall>k a. vm w k a \<noteq> None \<longrightarrow> shm w SHM_NAME \<noteq> None"
    and pk: "pc_ok w m p"
    and rt: "p = At_return \<longrightarrow> g_block (mods w m) \<noteq> None"
    and ok: "syscalls_ok e" and c: "c \<noteq> None"
    and nf: "\<forall>f. p \<noteq> Done (Inl f)"
    and st: "step_thread e ths m c p w = (p', w')"
  shows "\<forall>f. p' \<noteq> Done (Inl f)"
proof (cases p)
  case At_call_once
  with assms show ?thesis by (auto split: if_splits)
next
  case At_shm_open
  with assms show ?thesis by (auto simp: syscalls_ok_def Let_def split: if_splits)
next
  case At_ftruncate
  with assms show ?thesis by (auto simp: syscalls_ok_def Let_def split: if_splits)
next
  case At_mmap
  with assms show ?thesis by (auto simp: syscalls_ok_def Let_def split: option.splits)
next
  case (At_assign a)
  with assms show ?thesis by auto
next
  case At_cas
  with assms show ?thesis
    by (auto simp: pc_ok_def cas_initialized_def deref_g_block_def
        split: if_splits option.splits sum.splits bool.splits)
next
  case At_new
  with assms show ?thesis
    by (auto simp: pc_ok_def placement_new_def deref_g_block_def emit_def obs_defs Let_def
        split: if_splits option.splits sum.splits prod.splits)
next
  case At_init_return
  with assms show ?thesis by auto
next
  case At_return
  with assms show ?thesis by (auto simp: return_storage_def split: option.splits)
next
  case (Done r)
  with assms show ?thesis by auto
qed

lemma filter_ge1: "i < length xs \<Longrightarrow> P (xs ! i) \<Longrightarrow> 1 \<le> length (filter P xs)"
proof -
  assume "i < length xs" "P (xs ! i)"
  then have "filter P xs \<noteq> []" by (auto simp: filter_empty_conv)
  then show ?thesis by (cases "filter P xs") simp_all
qed

lemma filter_ge2:
  "i < length xs \<Longrightarrow> j < length xs \<Longrightarrow> i \<noteq> j \<Longrightarrow> P (xs ! i) \<Longrightarrow> P (xs ! j) \<Longrightarrow>
     2 \<le> length (filter P xs)"
proof (induction xs arbitrary: i j)
  case Nil
  then show ?case by simp
next
  case (Cons x xs)
  show ?case
  proof (cases i)
    case 0
    with Cons.prems obtain j' where j: "j = Suc j'" by (cases j) auto
    with Cons.prems 0 filter_ge1 [of j' xs P] show ?thesis by simp
  next
    case (Suc i')
    show ?thesis
    proof (cases j)
      case 0
      with Cons.prems Suc filter_ge1 [of i' xs P] show ?thesis by simp
    next
      case (Suc j')
      with Cons.prems \<open>i = Suc i'\<close> Cons.IH [of i' j'] show ?thesis by simp
    qed
  qed
qed

lemma in_set_update_cases:
  assumes "u \<in> set (xs[i := y])"
  shows "u = y \<or> (\<exists>j < length xs. j \<noteq> i \<and> u = xs ! j)"
proof -
  from assms obtain j where j: "j < length xs" "u = xs[i := y] ! j"
    by (auto simp: in_set_conv_nth)
  then show ?thesis by (cases "j = i") auto
qed


lemma conf_live_step:
  assumes inv: "conf_inv cf" and lv: "conf_live cf"
  shows "conf_live (step (i, e) cf)
       \<and> ((\<forall>t \<in> set (the_threads cf). th_ctor t \<noteq> None) \<and> conf_built cf \<longrightarrow>
            conf_built (step (i, e) cf))
       \<and> (syscalls_ok e \<and> conf_nofail cf \<longrightarrow> conf_nofail (step (i, e) cf))"
proof (cases "i < length (the_threads cf)")
  case False
  with lv show ?thesis by (simp add: step_def)
next
  case True
  define w where "w = the_world cf"
  define ths where "ths = the_threads cf"
  define t where "t = ths ! i"
  define m where "m = th_mapper t"
  define p where "p = th_pc t"
  obtain p' w' where st: "step_thread e ths m (th_ctor t) p w = (p', w')" by fastforce
  define t' where "t' = t\<lparr>th_pc := p'\<rparr>"
  define ths' where "ths' = ths[i := t']"
  have i: "i < length ths" using True by (simp add: ths_def)
  have res: "step (i, e) cf = \<lparr>the_world = w', the_threads = ths'\<rparr>"
    using True st by (simp add: step_def w_def ths_def t_def m_def p_def t'_def ths'_def)
  have tin: "t \<in> set ths" using i by (simp add: t_def)
  note I = conf_invD [OF inv, folded w_def ths_def]
  from lv have ob: "\<forall>k a. vm w k a \<noteq> None \<longrightarrow> shm w SHM_NAME \<noteq> None"
    and pl: "\<And>k. g_init_flag (mods w k) \<Longrightarrow>
               \<exists>a. g_block (mods w k) = Some a \<and> vm w k a = Some SHM_NAME"
    and th: "\<And>u. u \<in> set ths \<Longrightarrow> pc_ok w (th_mapper u) (th_pc u)"
    and rf: "\<And>u a. u \<in> set ths \<Longrightarrow> th_pc u = Done (Inr a) \<Longrightarrow>
               g_block (mods w (th_mapper u)) = Some a"
    by (simp_all add: conf_live_def w_def ths_def)
  have ret: "returned u \<longleftrightarrow> (\<exists>a. th_pc u = Done (Inr a))" for u
    by (auto simp: returned_def split: pc.splits sum.splits)
  have h1: "p = At_new \<or> p = At_init_return \<longrightarrow> flagged w"
    and h2: "p = At_return \<or> (\<exists>a. p = Done (Inr a)) \<longrightarrow> g_init_flag (mods w m)"
    using I(5,6) [OF tin] by (auto simp: p_def m_def ret)
  have h3: "\<not> flagged w \<longrightarrow> payload w = None" using I(7) by blast
  note E = step_thread_effect [OF I(1) h1 h2 h3 st]
  have pk: "pc_ok w m p" using th [OF tin] by (simp add: m_def p_def)
  have rt: "p = At_return \<longrightarrow> g_block (mods w m) \<noteq> None" using h2 pl by fastforce
  note L = step_thread_live [OF ob pk st]
  have ini: "initialising m t \<longleftrightarrow> in_init p" by (simp add: initialising_def m_def p_def)
  have excl: "\<not> initialising m (ths ! j)" if "j < length ths" "j \<noteq> i" "in_init p" for j
  proof
    assume "initialising m (ths ! j)"
    with that ini have "2 \<le> length (filter (initialising m) ths)"
      using filter_ge2 [of i ths j "initialising m"] i by (simp add: t_def)
    with I(3) [of m] show False by simp
  qed
  have keep: "g_block (mods w' k) = g_block (mods w k)" if a: "g_init_flag (mods w k)" for k
  proof -
    have "\<not> (k = m \<and> (\<exists>a. p = At_assign a))"
    proof
      assume b: "k = m \<and> (\<exists>a. p = At_assign a)"
      with I(4) [OF a] have "filter (initialising m) ths = []" by simp
      with tin have "\<not> initialising m t" by (simp add: filter_empty_conv)
      with b ini show False by auto
    qed
    with L(4) show ?thesis by blast
  qed
  have c2: "\<exists>a. g_block (mods w' k) = Some a \<and> vm w' k a = Some SHM_NAME"
    if g: "g_init_flag (mods w' k)" for k
  proof -
    from g E(6) have "g_init_flag (mods w k) \<or> (k = m \<and> p = At_init_return)" by blast
    then show ?thesis
    proof
      assume a: "g_init_flag (mods w k)"
      from pl [OF a] keep [OF a] L(3) show ?thesis by auto
    next
      assume a: "k = m \<and> p = At_init_return"
      with pk obtain b where "g_block (mods w m) = Some b" "vm w m b = Some SHM_NAME"
        by (auto simp: pc_ok_def)
      with a L(3,4) show ?thesis by auto
    qed
  qed
  have c3: "pc_ok w' (th_mapper u) (th_pc u) \<and>
            (\<forall>a. th_pc u = Done (Inr a) \<longrightarrow> g_block (mods w' (th_mapper u)) = Some a)"
    if u: "u \<in> set ths'" for u
  proof -
    from in_set_update_cases [OF u [unfolded ths'_def]]
    consider "u = t'" | j where "j < length ths" "j \<noteq> i" "u = ths ! j" by blast
    then show ?thesis
    proof cases
      case 1
      have "g_block (mods w' m) = Some a" if d: "p' = Done (Inr a)" for a
      proof -
        from L(6) d have "p = Done (Inr a) \<or> g_block (mods w' m) = Some a" by blast
        then show ?thesis
        proof
          assume pd: "p = Done (Inr a)"
          with rf [OF tin] have "g_block (mods w m) = Some a" by (simp add: p_def m_def)
          moreover from pd L(4) have "g_block (mods w' m) = g_block (mods w m)" by auto
          ultimately show ?thesis by simp
        qed
      qed
      with 1 L(5) show ?thesis by (simp add: t'_def m_def)
    next
      case 2
      then have uin: "u \<in> set ths" by simp
      note pu = th [OF uin]
      have gb: "g_block (mods w' (th_mapper u)) = g_block (mods w (th_mapper u))"
        if "in_init (th_pc u)"
      proof -
        have "\<not> (th_mapper u = m \<and> (\<exists>a. p = At_assign a))"
        proof
          assume b: "th_mapper u = m \<and> (\<exists>a. p = At_assign a)"
          then have "in_init p" by auto
          from excl [OF 2(1,2) this] b that 2(3) show False by (simp add: initialising_def)
        qed
        with L(4) show ?thesis by blast
      qed
      have pk': "pc_ok w' (th_mapper u) (th_pc u)"
        using pu L(2,3) gb by (auto simp: pc_ok_def)
      have "g_block (mods w' (th_mapper u)) = Some a" if d: "th_pc u = Done (Inr a)" for a
      proof -
        from I(6) [OF uin] d have "g_init_flag (mods w (th_mapper u))" by (simp add: ret)
        from keep [OF this] rf [OF uin d] show ?thesis by simp
      qed
      with pk' show ?thesis by blast
    qed
  qed
  have live: "conf_live \<lparr>the_world = w', the_threads = ths'\<rparr>"
    unfolding conf_live_def using L(1) c2 c3 by simp
  have upd: "length (filter at_new ths') + (if at_new t then 1 else 0) =
             length (filter at_new ths) + (if at_new t' then 1 else 0)"
    unfolding ths'_def t_def by (rule length_filter_update [OF i])
  have an: "at_new t \<longleftrightarrow> p = At_new" "at_new t' \<longleftrightarrow> p' = At_new"
    by (simp_all add: at_new_def p_def t'_def)
  have built: "conf_built \<lparr>the_world = w', the_threads = ths'\<rparr>"
    if cs: "\<forall>t \<in> set (the_threads cf). th_ctor t \<noteq> None" and bl: "conf_built cf"
  proof -
    from cs tin have c: "th_ctor t \<noteq> None" by (simp add: ths_def)
    from bl have py: "flagged w \<and> filter at_new ths = [] \<longrightarrow> payload w \<noteq> None"
      by (simp add: conf_built_def w_def ths_def)
    have "payload w' \<noteq> None" if "flagged w'" "filter at_new ths' = []"
    proof (cases "p = At_new")
      case True
      with L(9) c show ?thesis by auto
    next
      case False
      with upd an that(2) have n: "p' \<noteq> At_new" "filter at_new ths = []"
        by (auto split: if_splits)
      from False L(7) have same: "payload w' = payload w" "ctor_calls w' = ctor_calls w"
        by simp_all
      from E(2) same(2) False n(1) that(1) have "flagged w" by (simp split: if_splits)
      with py n(2) same(1) show ?thesis by simp
    qed
    then show ?thesis by (simp add: conf_built_def)
  qed
  have nofail: "conf_nofail \<lparr>the_world = w', the_threads = ths'\<rparr>"
    if ok: "syscalls_ok e" and nf: "conf_nofail cf"
  proof -
    from nf have nfu: "\<And>u. u \<in> set ths \<Longrightarrow> th_ctor u \<noteq> None \<and> (\<forall>f. th_pc u \<noteq> Done (Inl f))"
      by (simp add: conf_nofail_def ths_def)
    from nfu [OF tin] have c: "th_ctor t \<noteq> None" and np: "\<forall>f. p \<noteq> Done (Inl f)"
      by (simp_all add: p_def)
    note N = step_thread_nofail [OF ob pk rt ok c np st]
    have "th_ctor u \<noteq> None \<and> (\<forall>f. th_pc u \<noteq> Done (Inl f))" if u: "u \<in> set ths'" for u
    proof -
      from u have "u = t' \<or> u \<in> set ths" unfolding ths'_def
        using set_update_subset_insert [of ths i t'] by auto
      then show ?thesis
      proof
        assume "u = t'"
        with N c show ?thesis by (simp add: t'_def)
      next
        assume "u \<in> set ths"
        from nfu [OF this] show ?thesis .
      qed
    qed
    then show ?thesis by (simp add: conf_nofail_def)
  qed
  from live built nofail show ?thesis unfolding res by blast
qed


lemma step_ctors: "map th_ctor (the_threads (step ie cf)) = map th_ctor (the_threads cf)"
  by (cases ie) (simp add: step_def Let_def map_update list_update_same_conv split: prod.splits)

lemma run_ctors: "map th_ctor (the_threads (run_sched sched cf)) = map th_ctor (the_threads cf)"
  by (induction sched arbitrary: cf) (simp_all add: step_ctors)

lemma ctors_set:
  "(\<forall>t \<in> set (the_threads (step ie cf)). th_ctor t \<noteq> None) \<longleftrightarrow>
   (\<forall>t \<in> set (the_threads cf). th_ctor t \<noteq> None)"
proof -
  have "(\<forall>t \<in> set ths. th_ctor t \<noteq> None) \<longleftrightarrow> None \<notin> set (map th_ctor ths)" for ths :: "thread list"
    by (simp add: image_iff) (metis option.exhaust option.distinct(1))
  then show ?thesis by (simp only: step_ctors)
qed

lemma conf_built_run:
  "conf_inv cf \<Longrightarrow> conf_live cf \<Longrightarrow> \<forall>t \<in> set (the_threads cf). th_ctor t \<noteq> None \<Longrightarrow>
     conf_built cf \<Longrightarrow> conf_built (run_sched sched cf)"
proof (induction sched arbitrary: cf)
  case Nil
  then show ?case by simp
next
  case (Cons x sched)
  obtain i e where x: "x = (i, e)" by (cases x)
  note s = conf_live_step [OF Cons.prems(1,2), of i e]
  from s Cons.prems(3,4) have b: "conf_built (step (i, e) cf)" by blast
  have c: "\<forall>t \<in> set (the_threads (step (i, e) cf)). th_ctor t \<noteq> None"
    using Cons.prems(3) by (simp only: ctors_set)
  from Cons.IH [OF conf_inv_step [OF Cons.prems(1)] conjunct1 [OF s] c b]
  show ?case by (simp add: x)
qed

lemma conf_nofail_run:
  "conf_inv cf \<Longrightarrow> conf_live cf \<Longrightarrow> conf_nofail cf \<Longrightarrow> sched_ok sched \<Longrightarrow>
     conf_nofail (run_sched sched cf)"
proof (induction sched arbitrary: cf)
  case Nil
  then show ?case by simp
next
  case (Cons x sched)
  obtain i e where x: "x = (i, e)" by (cases x)
  from Cons.prems(4) x have ok: "syscalls_ok e" "sched_ok sched" by (simp_all add: sched_ok_def)
  note s = conf_live_step [OF Cons.prems(1,2), of i e]
  from s ok(1) Cons.prems(3) have n: "conf_nofail (step (i, e) cf)" by blast
  from Cons.IH [OF conf_inv_step [OF Cons.prems(1)] conjunct1 [OF s] n ok(2)]
  show ?case by (simp add: x)
qed

lemma conf_live_start:
  assumes "wf_world w" "pointers_live w" "\<forall>t \<in> set ths. th_pc t = At_call_once"
  shows "conf_live \<lparr>the_world = w, the_threads = ths\<rparr>"
proof -
  have "\<exists>a. g_block (mods w m) = Some a \<and> vm w m a = Some SHM_NAME"
    if "g_init_flag (mods w m)" for m
  proof -
    from that assms(2) obtain a where "g_block (mods w m) = Some a"
      by (auto simp: pointers_live_def)
    with assms(1) show ?thesis by (auto simp: wf_world_def)
  qed
  moreover have "\<forall>m a. vm w m a \<noteq> None \<longrightarrow> shm w SHM_NAME \<noteq> None"
    using assms(1) by (auto simp: wf_world_def)
  ultimately show ?thesis using assms(3) by (simp add: conf_live_def pc_ok_def)
qed

lemma conf_nofail_start:
  assumes "\<forall>t \<in> set ths. th_pc t = At_call_once \<and> th_ctor t \<noteq> None"
  shows "conf_nofail \<lparr>the_world = w, the_threads = ths\<rparr>"
  using assms by (simp add: conf_nofail_def)

lemma step_thread_payload:
  assumes "step_thread e ths m c p w = (p', w')"
  shows "payload w' = payload w \<or> payload w' = c"
proof (cases p)
  case At_call_once
  with assms show ?thesis by (auto split: if_splits)
next
  case At_shm_open
  with assms show ?thesis by (auto simp: Let_def split: if_splits)
next
  case At_ftruncate
  with assms show ?thesis by (auto simp: Let_def split: if_splits)
next
  case At_mmap
  with assms show ?thesis by (auto simp: Let_def split: option.splits)
next
  case (At_assign a)
  with assms show ?thesis by auto
next
  case At_cas
  with assms show ?thesis
    by (auto simp: cas_initialized_def deref_g_block_def emit_def payload_def
        split: if_splits option.splits sum.splits bool.splits)
next
  case At_new
  with assms show ?thesis
    by (auto simp: placement_new_def deref_g_block_def emit_def payload_def Let_def
        split: if_splits option.splits sum.splits prod.splits)
next
  case At_init_return
  with assms show ?thesis by auto
next
  case At_return
  with assms show ?thesis by auto
next
  case (Done r)
  with assms show ?thesis by auto
qed

lemma step_payload:
  "payload (the_world (step ie cf)) = payload (the_world cf)
   \<or> payload (the_world (step ie cf)) \<in> set (map th_ctor (the_threads cf))"
proof -
  obtain i e where ie: "ie = (i, e)" by (cases ie)
  show ?thesis
  proof (cases "i < length (the_threads cf)")
    case False
    then show ?thesis by (simp add: ie step_def)
  next
    case True
    define t where "t = the_threads cf ! i"
    obtain p' w' where st: "step_thread e (the_threads cf) (th_mapper t) (th_ctor t) (th_pc t)
        (the_world cf) = (p', w')" by fastforce
    have w': "the_world (step ie cf) = w'"
      using True st by (simp add: ie step_def t_def)
    have mem: "th_ctor t \<in> set (map th_ctor (the_threads cf))"
      using True by (simp add: t_def)
    from step_thread_payload [OF st] show ?thesis
    proof
      assume "payload w' = payload (the_world cf)"
      then show ?thesis by (simp only: w' simp_thms)
    next
      assume "payload w' = th_ctor t"
      with mem have "payload w' \<in> set (map th_ctor (the_threads cf))" by (simp only:)
      then show ?thesis by (simp only: w' simp_thms)
    qed
  qed
qed

lemma run_payload:
  "payload (the_world (run_sched sched cf)) = payload (the_world cf)
   \<or> payload (the_world (run_sched sched cf)) \<in> set (map th_ctor (the_threads cf))"
proof (induction sched arbitrary: cf)
  case Nil
  then show ?case by simp
next
  case (Cons x sched)
  from Cons.IH [of "step x cf"] step_payload [of x cf] show ?case
    by (auto simp: step_ctors simp del: set_map)
qed

lemma step_thread_remaining:
  "fst (step_thread e ths m c p w) \<noteq> p \<Longrightarrow> remaining (fst (step_thread e ths m c p w)) < remaining p"
  by (cases p) (auto simp: Let_def split: if_splits option.splits sum.splits bool.splits prod.splits)

lemma sum_list_map_update:
  "i < length xs \<Longrightarrow>
     sum_list (map f (xs[i := y])) + f (xs ! i) = sum_list (map f xs) + (f y :: nat)"
proof (induction xs arbitrary: i)
  case Nil
  then show ?case by simp
next
  case (Cons x xs)
  then show ?case by (cases i) auto
qed

lemma steps_bounded:
  assumes "the_threads (step (i, e) cf) \<noteq> the_threads cf"
  shows "work_left (step (i, e) cf) < work_left cf"
proof -
  from assms have i: "i < length (the_threads cf)"
    by (cases "i < length (the_threads cf)") (simp_all add: step_def)
  define t where "t = the_threads cf ! i"
  define p' where "p' = fst (step_thread e (the_threads cf) (th_mapper t) (th_ctor t) (th_pc t) (the_world cf))"
  have ths: "the_threads (step (i, e) cf) = (the_threads cf)[i := t\<lparr>th_pc := p'\<rparr>]"
    using i by (simp add: step_def t_def p'_def Let_def split: prod.splits)
  have "p' \<noteq> th_pc t"
  proof
    assume "p' = th_pc t"
    then have "t\<lparr>th_pc := p'\<rparr> = t" by simp
    with ths have "the_threads (step (i, e) cf) = the_threads cf"
      by (simp add: t_def)
    with assms show False by contradiction
  qed
  then have "remaining p' < remaining (th_pc t)"
    unfolding p'_def by (rule step_thread_remaining)
  with sum_list_map_update [OF i, of "\<lambda>t. remaining (th_pc t)" "t\<lparr>th_pc := p'\<rparr>"]
  show ?thesis by (simp add: work_left_def ths t_def)
qed





lemma nofail_finished_returned:
  assumes "conf_nofail cf"
  shows "list_all (\<lambda>t. finished t \<longrightarrow> returned t) (the_threads cf)"
  unfolding list_all_iff
proof (intro ballI impI)
  fix t assume t: "t \<in> set (the_threads cf)" "finished t"
  from assms t(1) have "\<forall>f. th_pc t \<noteq> Done (Inl f)" by (simp add: conf_nofail_def)
  with t(2) show "returned t"
    by (auto simp: finished_def returned_def split: pc.splits sum.splits)
qed

text \<open>
  C1.  \<open>N\<close> threads of one mapper call \<open>get_shm_logger\<close> in a well-formed world.
  Under every schedule, at every moment, the payload constructor has been entered at most
  once, and as long as a thread has not finished, some thread can take a step (the
  callers never block each other for good).  When no initialised mapper has been cleaned
  up, the region is not one that a failed constructor has left behind (a true flag goes
  with a constructed payload) and the constructor does not throw, then as soon as one of
  the threads has returned its reference, exactly one constructor call has happened and
  the storage holds a constructed payload; on a region whose flag was false this payload
  is the one the callers' placement new has built.  When moreover the system calls
  succeed, no thread ends in a failure, so that once all \<open>N > 0\<close> threads have
  finished, a thread has returned and the construction has happened.
\<close>

theorem one_construction_any_schedule:
  assumes "wf_world w"
    and "cf = run_sched sched \<lparr>the_world = w, the_threads = replicate N (caller m c)\<rparr>"
  shows "ctor_calls (the_world cf) \<le> 1
       \<and> (\<not> list_all finished (the_threads cf) \<longrightarrow>
            (\<exists>i < length (the_threads cf). \<forall>e. the_threads (step (i, e) cf) \<noteq> the_threads cf))
       \<and> (pointers_live w \<and> (flagged w \<longrightarrow> payload w \<noteq> None) \<and> c \<noteq> None \<longrightarrow>
            (list_ex returned (the_threads cf) \<longrightarrow>
               ctor_calls (the_world cf) = 1 \<and> payload (the_world cf) \<noteq> None
               \<and> (\<not> flagged w \<longrightarrow> payload (the_world cf) = c))
            \<and> (sched_ok sched \<longrightarrow>
                 list_all (\<lambda>t. finished t \<longrightarrow> returned t) (the_threads cf)
                 \<and> (0 < N \<and> list_all finished (the_threads cf) \<longrightarrow>
                      list_ex returned (the_threads cf))))"
proof -
  let ?start = "\<lparr>the_world = w, the_threads = replicate N (caller m c)\<rparr>"
  have pcs: "\<forall>t \<in> set (the_threads ?start). th_pc t = At_call_once" by (simp add: caller_def)
  have inv0: "conf_inv ?start" by (rule conf_inv_start [OF assms(1)]) (simp add: caller_def)
  then have inv: "conf_inv cf" unfolding assms(2) by (rule conf_inv_run)
  note I = conf_invD [OF inv]
  have le: "ctor_calls (the_world cf) \<le> 1" using I(2) by (simp split: if_splits)
  have eq: "map th_mapper (the_threads cf) = replicate N m"
    unfolding assms(2) by (simp add: run_mappers caller_def)
  have same: "th_mapper t = m" if "t \<in> set (the_threads cf)" for t
  proof -
    from that have "th_mapper t \<in> set (map th_mapper (the_threads cf))" by simp
    then have "th_mapper t \<in> set (replicate N m)" by (simp only: eq)
    then show "th_mapper t = m" by simp
  qed
  have one: "ctor_calls (the_world cf) = 1 \<and> flagged (the_world cf)
           \<and> filter at_new (the_threads cf) = []"
    if "list_ex returned (the_threads cf)"
  proof -
    from that obtain t where t: "t \<in> set (the_threads cf)" "returned t"
      by (auto simp: list_ex_iff)
    from I(6) [OF t(1)] t(2) same [OF t(1)] have g: "g_init_flag (mods (the_world cf) m)"
      by simp
    from I(4) [OF g] have fl: "flagged (the_world cf)"
      and none: "filter (initialising m) (the_threads cf) = []" by simp_all
    have "filter at_new (the_threads cf) = []"
      unfolding filter_empty_conv
    proof
      fix u assume u: "u \<in> set (the_threads cf)"
      with none have "\<not> initialising m u" by (simp add: filter_empty_conv)
      with same [OF u] show "\<not> at_new u" by (auto simp: at_new_def initialising_def)
    qed
    with I(2) fl show ?thesis by simp
  qed
  have cond: "(list_ex returned (the_threads cf) \<longrightarrow>
               ctor_calls (the_world cf) = 1 \<and> payload (the_world cf) \<noteq> None
               \<and> (\<not> flagged w \<longrightarrow> payload (the_world cf) = c))
            \<and> (sched_ok sched \<longrightarrow>
                 list_all (\<lambda>t. finished t \<longrightarrow> returned t) (the_threads cf)
                 \<and> (0 < N \<and> list_all finished (the_threads cf) \<longrightarrow>
                      list_ex returned (the_threads cf)))"
    if h: "pointers_live w" "flagged w \<longrightarrow> payload w \<noteq> None" "c \<noteq> None"
  proof -
    have lv0: "conf_live ?start" by (rule conf_live_start [OF assms(1) h(1)]) (simp add: caller_def)
    have cs: "\<forall>t \<in> set (the_threads ?start). th_ctor t \<noteq> None" by (simp add: caller_def h(3))
    have b0: "conf_built ?start" using h(2) by (simp add: conf_built_def)
    have built: "conf_built cf" unfolding assms(2) by (rule conf_built_run [OF inv0 lv0 cs b0])
    have 1: "ctor_calls (the_world cf) = 1 \<and> payload (the_world cf) \<noteq> None
               \<and> (\<not> flagged w \<longrightarrow> payload (the_world cf) = c)"
      if r: "list_ex returned (the_threads cf)"
    proof -
      from one [OF r] built have p: "ctor_calls (the_world cf) = 1" "payload (the_world cf) \<noteq> None"
        by (simp_all add: conf_built_def)
      have "payload (the_world cf) = c" if nf: "\<not> flagged w"
      proof -
        from nf assms(1) have "payload w = None" by (simp add: wf_world_def)
        with run_payload [of sched ?start] p(2)
        have "payload (the_world cf) \<in> set (map th_ctor (replicate N (caller m c)))"
          unfolding assms(2) by auto
        then show ?thesis by (auto simp: caller_def)
      qed
      with p show ?thesis by blast
    qed
    have 2: "list_all (\<lambda>t. finished t \<longrightarrow> returned t) (the_threads cf)
                 \<and> (0 < N \<and> list_all finished (the_threads cf) \<longrightarrow>
                      list_ex returned (the_threads cf))"
      if ok: "sched_ok sched"
    proof -
      have "conf_nofail ?start" by (rule conf_nofail_start) (simp add: caller_def h(3))
      from conf_nofail_run [OF inv0 lv0 this ok] have "conf_nofail cf" unfolding assms(2) .
      then have fr: "list_all (\<lambda>t. finished t \<longrightarrow> returned t) (the_threads cf)"
        by (rule nofail_finished_returned)
      have "list_ex returned (the_threads cf)" if n: "0 < N" "list_all finished (the_threads cf)"
      proof -
        from eq have "length (the_threads cf) = N" by (metis length_map length_replicate)
        with n(1) obtain t where t: "t \<in> set (the_threads cf)"
          by (cases "the_threads cf") auto
        with n(2) fr have "returned t" by (simp add: list_all_iff)
        with t show ?thesis by (auto simp: list_ex_iff)
      qed
      with fr show ?thesis by blast
    qed
    from 1 2 show ?thesis by blast
  qed
  from le no_deadlock [of cf] cond show ?thesis by blast
qed

theorem one_construction_any_schedule_witness:
  "ctor_calls (the_world (run_sched demo_sched
      \<lparr>the_world = fresh_world,
       the_threads = replicate 3 (caller 0 (ProcessLogger_ctor ''shared_memory''))\<rparr>)) = 1
   \<and> payload (the_world (run_sched demo_sched
      \<lparr>the_world = fresh_world,
       the_threads = replicate 3 (caller 0 (ProcessLogger_ctor ''shared_memory''))\<rparr>))
     = Some \<lparr>tag = ''shared_memory''\<rparr>"
proof -
  have "returned t" if "th_pc t = Done (Inr 4096)" for t
    using that by (simp add: returned_def)
  with demo_sched_result have r: "list_ex returned (the_threads (run_sched demo_sched
      \<lparr>the_world = fresh_world,
       the_threads = replicate 3 (caller 0 (ProcessLogger_ctor ''shared_memory''))\<rparr>))"
    by (auto simp: list_ex_iff)
  have h: "pointers_live fresh_world" "\<not> flagged fresh_world"
    "ProcessLogger_ctor ''shared_memory'' \<noteq> None"
    by (simp_all add: pointers_live_def fresh_world_def flagged_def ProcessLogger_ctor_def)
  from one_construction_any_schedule [OF wf_fresh refl,
      of demo_sched 3 0 "ProcessLogger_ctor ''shared_memory''"] r h
  show ?thesis by (simp add: ProcessLogger_ctor_def)
qed

text \<open>
  C2.  The claim fails: the compare-exchange writes the flag before the placement new.
  In \<open>race_conf\<close> a thread of mapper 0 has won the exchange and stands before the
  placement new; a caller of mapper 1 has then run its whole call, found the flag true
  and returned its reference, while no constructor has been entered and the payload bytes
  are unconstructed.
\<close>

theorem flag_written_before_construction_counterexample:
  "flagged (the_world race_conf)
   \<and> payload (the_world race_conf) = None
   \<and> ctor_calls (the_world race_conf) = 0
   \<and> map th_pc (the_threads race_conf) = [At_new, Done (Inr 8192)]"
  by (simp add: race_conf_def race_sched_def eval_defs obs_defs cas_initialized_def)

text \<open>
  C2, as the code has it.  Under every schedule of callers of any mappers, started in a
  well-formed world: the flag is true exactly when one thread has won the
  compare-exchange, and that thread either stands before the placement new or has
  entered the constructor, which happens at most once; a constructed payload is only
  found under a true flag.  The flag write precedes the construction.  What remains of
  the guarantee: when the system calls succeed and no constructor throws, a true flag
  goes with a constructed payload at every moment at which no thread stands between its
  compare-exchange and the end of its placement new.
\<close>

theorem flag_is_set_before_construction:
  assumes "wf_world w" "\<forall>t \<in> set ths. th_pc t = At_call_once"
    and "cf = run_sched sched \<lparr>the_world = w, the_threads = ths\<rparr>"
  shows "ctor_calls (the_world cf) + length (filter at_new (the_threads cf)) =
           (if flagged (the_world cf) then 1 else 0)
       \<and> (payload (the_world cf) \<noteq> None \<longrightarrow> flagged (the_world cf))
       \<and> (pointers_live w \<and> (flagged w \<longrightarrow> payload w \<noteq> None)
            \<and> (\<forall>t \<in> set ths. th_ctor t \<noteq> None) \<and> sched_ok sched \<longrightarrow>
            (flagged (the_world cf) \<and> filter at_new (the_threads cf) = [] \<longrightarrow>
               payload (the_world cf) \<noteq> None))"
proof -
  let ?start = "\<lparr>the_world = w, the_threads = ths\<rparr>"
  have inv0: "conf_inv ?start" by (rule conf_inv_start [OF assms(1,2)])
  then have inv: "conf_inv cf" unfolding assms(3) by (rule conf_inv_run)
  from conf_invD(2,7) [OF inv]
  have 1: "ctor_calls (the_world cf) + length (filter at_new (the_threads cf)) =
           (if flagged (the_world cf) then 1 else 0)
       \<and> (payload (the_world cf) \<noteq> None \<longrightarrow> flagged (the_world cf))"
    by (cases "flagged (the_world cf)") simp_all
  have 2: "flagged (the_world cf) \<and> filter at_new (the_threads cf) = [] \<longrightarrow>
               payload (the_world cf) \<noteq> None"
    if h: "pointers_live w" "flagged w \<longrightarrow> payload w \<noteq> None"
      "\<forall>t \<in> set ths. th_ctor t \<noteq> None"
  proof -
    have lv0: "conf_live ?start" by (rule conf_live_start [OF assms(1) h(1) assms(2)])
    have cs: "\<forall>t \<in> set (the_threads ?start). th_ctor t \<noteq> None" using h(3) by simp
    have "conf_built ?start" using h(2) by (simp add: conf_built_def)
    from conf_built_run [OF inv0 lv0 cs this] have "conf_built cf" unfolding assms(3) .
    then show ?thesis by (simp add: conf_built_def)
  qed
  from 1 2 show ?thesis by blast
qed

theorem flag_is_set_before_construction_witness:
  "ctor_calls (the_world race_conf) + length (filter at_new (the_threads race_conf)) =
     (if flagged (the_world race_conf) then 1 else 0)
   \<and> flagged (the_world race_conf) \<and> payload (the_world race_conf) = None"
proof -
  have fp: "flagged (the_world race_conf)" "payload (the_world race_conf) = None"
    by (simp_all add: race_conf_def race_sched_def eval_defs obs_defs cas_initialized_def)
  from flag_is_set_before_construction [OF wf_fresh _ race_conf_def] fp
  show ?thesis by (simp add: caller_def)
qed




section \<open>Exit codes of the guard\<close>

text \<open>
  C8.  The guard exits with code 0 exactly when the lock token could be opened and the
  exclusive lock was acquired (\<open>flock\<close> returned 0, which it does exactly when no other
  holder owns the lock and no other error occurs); in every other case, that is when the
  lock is held by another holder, when \<open>flock\<close> fails otherwise, and when opening the
  token fails, it exits with code 1.
\<close>

theorem daemon_exit_code:
  "fst (daemon_main e) = (if 0 \<le> open_ret e \<and> fst (sys_flock e) = 0 then 0 else 1)
   \<and> (fst (sys_flock e) = 0 \<longleftrightarrow> \<not> lock_held e \<and> flock_fault e = None)"
  by (auto simp: daemon_main_def sys_flock_def split: option.splits prod.splits)

end
